theory Spec2Isabelle
  imports Main "HOL-Library.Word"
begin

section \<open>The query parser of fsearch (src/fsearch\_query\_parser.c)\<close>

text \<open>
  The parser turns the token stream of a search query into a list of query nodes in
  postfix order. This theory embeds the C functions of \<^verbatim>\<open>fsearch_query_parser.c\<close> as HOL
  functions and proves properties of them. Mutation of the parse context is explicit state
  passing: every function that touches \<^verbatim>\<open>parse_ctx\<close> returns the new context. A \<^verbatim>\<open>GList\<close>
  is a list, and the \<^verbatim>\<open>NULL\<close> list is the empty list.
\<close>

subsection \<open>Tokens, flags and nodes\<close>

text \<open>The enum \<^verbatim>\<open>FsearchQueryToken\<close>, with the enumerators the parser names.\<close>

datatype FsearchQueryToken =
    FSEARCH_QUERY_TOKEN_NONE
  | FSEARCH_QUERY_TOKEN_EOS
  | FSEARCH_QUERY_TOKEN_WORD
  | FSEARCH_QUERY_TOKEN_FIELD
  | FSEARCH_QUERY_TOKEN_FIELD_EMPTY
  | FSEARCH_QUERY_TOKEN_AND
  | FSEARCH_QUERY_TOKEN_OR
  | FSEARCH_QUERY_TOKEN_NOT
  | FSEARCH_QUERY_TOKEN_BRACKET_OPEN
  | FSEARCH_QUERY_TOKEN_BRACKET_CLOSE
  | FSEARCH_QUERY_TOKEN_EQUAL
  | FSEARCH_QUERY_TOKEN_SMALLER
  | FSEARCH_QUERY_TOKEN_SMALLER_EQ
  | FSEARCH_QUERY_TOKEN_GREATER
  | FSEARCH_QUERY_TOKEN_GREATER_EQ

text \<open>
  Modelled from the spec: the bit set \<^verbatim>\<open>FsearchQueryFlags\<close> (its header is not among the
  sources). Each flag is one bit, so a flag word is the set of the bits that are on:
  \<^verbatim>\<open>flags |= f\<close> is \<open>insert f flags\<close>, \<^verbatim>\<open>flags &= ~f\<close> is \<open>flags - {f}\<close> and
  \<^verbatim>\<open>flags & f\<close> is \<open>f \<in> flags\<close>. Flags are passed by value in C, so they are plain
  arguments here and never part of the context.
\<close>

datatype FsearchQueryFlag =
    QUERY_FLAG_MATCH_CASE
  | QUERY_FLAG_EXACT_MATCH
  | QUERY_FLAG_FILES_ONLY
  | QUERY_FLAG_FOLDERS_ONLY
  | QUERY_FLAG_SEARCH_IN_PATH
  | QUERY_FLAG_REGEX

type_synonym FsearchQueryFlags = "FsearchQueryFlag set"

datatype FsearchQueryNodeComparison =
    FSEARCH_QUERY_NODE_COMPARISON_EQUAL
  | FSEARCH_QUERY_NODE_COMPARISON_SMALLER
  | FSEARCH_QUERY_NODE_COMPARISON_SMALLER_EQ
  | FSEARCH_QUERY_NODE_COMPARISON_GREATER
  | FSEARCH_QUERY_NODE_COMPARISON_GREATER_EQ
  | FSEARCH_QUERY_NODE_COMPARISON_RANGE

datatype FsearchQueryNodeOperator =
    FSEARCH_QUERY_NODE_OPERATOR_AND
  | FSEARCH_QUERY_NODE_OPERATOR_OR
  | FSEARCH_QUERY_NODE_OPERATOR_NOT

text \<open>
  Modelled from the spec: the node factory (\<^verbatim>\<open>fsearch_query_node.c\<close> is not among the
  sources). Every constructor function \<^verbatim>\<open>fsearch_query_node_new_*\<close> is one constructor of
  the datatype: \<^verbatim>\<open>fsearch_query_node_new\<close> is \<open>NodeWord\<close>, \<^verbatim>\<open>fsearch_query_node_new_size\<close>
  is \<open>NodeSize\<close>, and so on. The numeric leaves carry \<open>(flags, start, end, comparison)\<close>;
  \<open>start\<close> and \<open>end\<close> are \<^verbatim>\<open>int64_t\<close> values that the parser only stores and compares,
  never computes with, so they are integers here. The extension node takes a string
  that may be \<^verbatim>\<open>NULL\<close>.
\<close>

datatype FsearchQueryNode =
    NodeWord string FsearchQueryFlags
  | NodeSize FsearchQueryFlags int int FsearchQueryNodeComparison
  | NodeDepth FsearchQueryFlags int int FsearchQueryNodeComparison
  | NodeChildCount FsearchQueryFlags int int FsearchQueryNodeComparison
  | NodeChildFileCount FsearchQueryFlags int int FsearchQueryNodeComparison
  | NodeChildFolderCount FsearchQueryFlags int int FsearchQueryNodeComparison
  | NodeDateModified FsearchQueryFlags int int FsearchQueryNodeComparison
  | NodeExtension "string option" FsearchQueryFlags
  | NodeContentType string FsearchQueryFlags
  | NodeParent string FsearchQueryFlags
  | NodeMatchEverything FsearchQueryFlags
  | NodeMatchNothing
  | NodeOperator FsearchQueryNodeOperator

type_synonym FsearchQueryComparisonNewNodeFunc =
  "FsearchQueryFlags \<Rightarrow> int \<Rightarrow> int \<Rightarrow> FsearchQueryNodeComparison \<Rightarrow> FsearchQueryNode"

text \<open>
  A value parser (\<^verbatim>\<open>FsearchQueryIntegerParserFunc\<close>) returns \<^verbatim>\<open>false\<close>, here \<open>None\<close>,
  or writes its two results.
\<close>

type_synonym FsearchQueryIntegerParserFunc = "string \<Rightarrow> (int \<times> int) option"

subsection \<open>The lexer\<close>

text \<open>
  Modelled from the spec: the lexer (\<^verbatim>\<open>fsearch_query_lexer.c\<close> is not among the sources).
  A lexer is the list of the tokens that are still to come, each with its text (the
  empty string for a token without text). \<^verbatim>\<open>fsearch_query_lexer_get_next_token\<close> consumes
  the first token, \<^verbatim>\<open>fsearch_query_lexer_peek_next_token\<close> looks at it, and both return
  \<^verbatim>\<open>FSEARCH_QUERY_TOKEN_EOS\<close> past the end of the input.
\<close>

type_synonym FsearchQueryLexer = "(FsearchQueryToken \<times> string) list"

fun fsearch_query_lexer_get_next_token ::
  "FsearchQueryLexer \<Rightarrow> (FsearchQueryToken \<times> string) \<times> FsearchQueryLexer" where
  "fsearch_query_lexer_get_next_token [] = ((FSEARCH_QUERY_TOKEN_EOS, []), [])"
| "fsearch_query_lexer_get_next_token (t # rest) = (t, rest)"

fun fsearch_query_lexer_peek_next_token :: "FsearchQueryLexer \<Rightarrow> FsearchQueryToken" where
  "fsearch_query_lexer_peek_next_token [] = FSEARCH_QUERY_TOKEN_EOS"
| "fsearch_query_lexer_peek_next_token (t # rest) = fst t"

text \<open>
  Modelled from the spec: \<^verbatim>\<open>fsearch_string_is_empty\<close> (\<^verbatim>\<open>fsearch_string_utils.c\<close> is not
  among the sources).
\<close>

definition fsearch_string_is_empty :: "string \<Rightarrow> bool" where
  "fsearch_string_is_empty s \<longleftrightarrow> s = []"

subsection \<open>The parse context\<close>

text \<open>
  A filter of the macro registry. The parser identifies a filter by its address; the
  registry is scanned for the first filter with the macro's name, so the filter that a
  name selects is determined by its position, and the macro stack holds positions.
  The field \<^verbatim>\<open>flags\<close> of the C struct is \<open>filter_flags\<close> here.
\<close>

record FsearchFilter =
  macro :: string
  query :: string
  filter_flags :: FsearchQueryFlags

text \<open>
  The operator stack is a \<^verbatim>\<open>GQueue\<close> used at its tail; here the head of the list is the
  tail of the queue, that is the top of the stack. The macro stack is pushed and popped
  at its tail as well, and keeps the queue's order.
\<close>

record FsearchQueryParseContext =
  lexer :: FsearchQueryLexer
  operator_stack :: "FsearchQueryToken list"
  macro_stack :: "nat list"
  macro_filters :: "FsearchFilter list"
  last_token :: FsearchQueryToken

text \<open>
  The functions the parser calls that live in other files: the lexer's constructor and
  the value parsers for sizes and for date intervals. They are parameters of the model.
\<close>

record externals =
  fsearch_query_lexer_new :: "string \<Rightarrow> FsearchQueryLexer"
  fsearch_size_parse :: FsearchQueryIntegerParserFunc
  fsearch_date_time_parse_interval :: FsearchQueryIntegerParserFunc

text \<open>
  \<^verbatim>\<open>g_assert_not_reached\<close> aborts the program; the abort is an error value. A function of
  the parser that can reach it, or that calls the parser recursively, returns
  \<open>Inl\<close> of the error or \<open>Inr\<close> of its result.
\<close>

datatype error = AssertNotReached

subsection \<open>List helpers\<close>

definition new_list :: "FsearchQueryNode option \<Rightarrow> FsearchQueryNode list" where
  "new_list element = (case element of Some e \<Rightarrow> [e] | None \<Rightarrow> [])"

definition append_to_list_if_nonnull ::
  "FsearchQueryNode list \<Rightarrow> FsearchQueryNode option \<Rightarrow> FsearchQueryNode list" where
  "append_to_list_if_nonnull list element = (case element of Some e \<Rightarrow> list @ [e] | None \<Rightarrow> list)"

definition expect_word :: "FsearchQueryLexer \<Rightarrow> (bool \<times> string) \<times> FsearchQueryLexer" where
  "expect_word lx =
     (case fsearch_query_lexer_get_next_token lx of
        ((token, string), lx') \<Rightarrow> ((token = FSEARCH_QUERY_TOKEN_WORD, string), lx'))"

subsection \<open>The numeric range parser\<close>

text \<open>
  \<^verbatim>\<open>g_strsplit (s, "..", 2)\<close> of GLib: the empty string gives the empty vector; a string
  without the delimiter gives the string itself; otherwise the string is cut at the
  first occurrence of the delimiter, into the part before and the part after it.
\<close>

fun split_at_dotdot :: "string \<Rightarrow> (string \<times> string) option" where
  "split_at_dotdot [] = None"
| "split_at_dotdot [c] = None"
| "split_at_dotdot (c # d # r) =
     (if c = CHR ''.'' \<and> d = CHR ''.'' then Some ([], r)
      else (case split_at_dotdot (d # r) of
              None \<Rightarrow> None
            | Some (l, r') \<Rightarrow> Some (c # l, r')))"

definition g_strsplit_dotdot_2 :: "string \<Rightarrow> string list" where
  "g_strsplit_dotdot_2 s =
     (if s = [] then []
      else (case split_at_dotdot s of None \<Rightarrow> [s] | Some (l, r) \<Rightarrow> [l, r]))"

definition INT32_MAX :: int where
  "INT32_MAX = 2147483647"

text \<open>
  \<^verbatim>\<open>parse_numeric_field_with_optional_range\<close>, lines 138 to 194. The field name is used
  for a debug message only and is left out. The second call of the value parser passes
  \<^verbatim>\<open>NULL\<close> for its first result, so only the second one is kept. Every \<^verbatim>\<open>goto fail\<close> is the
  match-nothing node.
\<close>

definition parse_numeric_field_with_optional_range ::
  "FsearchQueryIntegerParserFunc \<Rightarrow> FsearchQueryComparisonNewNodeFunc \<Rightarrow> string
     \<Rightarrow> FsearchQueryFlags \<Rightarrow> FsearchQueryNode" where
  "parse_numeric_field_with_optional_range parse_value_func new_node_func string flags =
     (case g_strsplit_dotdot_2 string of
        [] \<Rightarrow> NodeMatchNothing
      | e0 # es \<Rightarrow>
          (case (if fsearch_string_is_empty e0
                 then Some (0, 0, FSEARCH_QUERY_NODE_COMPARISON_RANGE)
                 else (case parse_value_func e0 of
                         Some (s, e) \<Rightarrow> Some (s, e, FSEARCH_QUERY_NODE_COMPARISON_RANGE)
                       | None \<Rightarrow> None)) of
             None \<Rightarrow> NodeMatchNothing
           | Some (start, end0, comp0) \<Rightarrow>
               (case (case es of
                        [] \<Rightarrow> Some (end0, comp0)
                      | e1 # _ \<Rightarrow>
                          (if fsearch_string_is_empty e1
                           then Some (INT32_MAX, FSEARCH_QUERY_NODE_COMPARISON_GREATER_EQ)
                           else (case parse_value_func e1 of
                                   Some (_, e) \<Rightarrow> Some (e, FSEARCH_QUERY_NODE_COMPARISON_RANGE)
                                 | None \<Rightarrow> None))) of
                  None \<Rightarrow> NodeMatchNothing
                | Some (end1, comp1) \<Rightarrow>
                    new_node_func flags start end1
                      (if start = end1 then FSEARCH_QUERY_NODE_COMPARISON_EQUAL else comp1))))"

subsection \<open>Integers\<close>

text \<open>
  \<^verbatim>\<open>strtoll (str, &num_suffix, 10)\<close> of the C library: it skips white space, reads an
  optional sign and then decimal digits, and stops at the first other character. A value
  out of the range of \<^verbatim>\<open>long long\<close> is clamped. Without any digit no conversion is done
  and the end pointer is the string itself: that is \<open>None\<close> here. Otherwise the result
  is the value and the rest of the string.
\<close>

definition c_isspace :: "char \<Rightarrow> bool" where
  "c_isspace c \<longleftrightarrow> (of_char c :: nat) = 32 \<or> (9 \<le> (of_char c :: nat) \<and> (of_char c :: nat) \<le> 13)"

definition c_isdigit :: "char \<Rightarrow> bool" where
  "c_isdigit c \<longleftrightarrow> 48 \<le> (of_char c :: nat) \<and> (of_char c :: nat) \<le> 57"

fun strtoll_digits :: "string \<Rightarrow> int \<Rightarrow> int \<times> string" where
  "strtoll_digits [] acc = (acc, [])"
| "strtoll_digits (c # cs) acc =
     (if c_isdigit c then strtoll_digits cs (10 * acc + (of_char c - 48)) else (acc, c # cs))"

definition strtoll_10 :: "string \<Rightarrow> (int \<times> string) option" where
  "strtoll_10 str =
     (let s1 = dropWhile c_isspace str;
          negative = (case s1 of c # _ \<Rightarrow> c = CHR ''-'' | [] \<Rightarrow> False);
          s2 = (case s1 of c # cs \<Rightarrow> if c = CHR ''-'' \<or> c = CHR ''+'' then cs else s1 | [] \<Rightarrow> s1)
      in case s2 of
           [] \<Rightarrow> None
         | c # _ \<Rightarrow>
             if c_isdigit c
             then (case strtoll_digits s2 0 of
                     (v, rest) \<Rightarrow>
                       Some (max (- (2 ^ 63)) (min (2 ^ 63 - 1) (if negative then - v else v)), rest))
             else None)"

text \<open>\<^verbatim>\<open>parse_integer\<close>, lines 196 to 215.\<close>

definition parse_integer :: FsearchQueryIntegerParserFunc where
  "parse_integer str =
     (case strtoll_10 str of
        None \<Rightarrow> None
      | Some (num, num_suffix) \<Rightarrow> if num_suffix \<noteq> [] then None else Some (num, num))"

subsection \<open>Functions of a field\<close>

text \<open>
  \<^verbatim>\<open>parse_numeric_function\<close>, lines 217 to 266. The second part, after the \<^verbatim>\<open>switch\<close>,
  is \<open>parse_numeric_function_value\<close>.
\<close>

definition parse_numeric_function_value ::
  "FsearchQueryParseContext \<Rightarrow> FsearchQueryFlags \<Rightarrow> FsearchQueryComparisonNewNodeFunc
     \<Rightarrow> FsearchQueryIntegerParserFunc \<Rightarrow> FsearchQueryNodeComparison
     \<Rightarrow> FsearchQueryNode list \<times> FsearchQueryParseContext" where
  "parse_numeric_function_value parse_ctx flags new_node_func parse_value_func comp_type =
     (case expect_word (lexer parse_ctx) of
        ((is_word, next_token_value), lx) \<Rightarrow>
          (if is_word
           then (case parse_value_func next_token_value of
                   Some (val_1, val_2) \<Rightarrow>
                     (new_list (Some (new_node_func flags val_1 val_2 comp_type)),
                      parse_ctx\<lparr>lexer := lx\<rparr>)
                 | None \<Rightarrow> (new_list (Some NodeMatchNothing), parse_ctx\<lparr>lexer := lx\<rparr>))
           else (new_list (Some NodeMatchNothing), parse_ctx\<lparr>lexer := lx\<rparr>)))"

definition parse_numeric_function ::
  "FsearchQueryParseContext \<Rightarrow> bool \<Rightarrow> FsearchQueryFlags \<Rightarrow> FsearchQueryComparisonNewNodeFunc
     \<Rightarrow> FsearchQueryIntegerParserFunc \<Rightarrow> FsearchQueryNode list \<times> FsearchQueryParseContext" where
  "parse_numeric_function parse_ctx is_empty_field flags new_node_func parse_value_func =
     (if is_empty_field then (new_list (Some (NodeMatchEverything flags)), parse_ctx)
      else (case fsearch_query_lexer_get_next_token (lexer parse_ctx) of
              ((token, token_value), lx) \<Rightarrow>
                (let ctx1 = parse_ctx\<lparr>lexer := lx\<rparr> in
                 case token of
                   FSEARCH_QUERY_TOKEN_EQUAL \<Rightarrow>
                     parse_numeric_function_value ctx1 flags new_node_func parse_value_func
                       FSEARCH_QUERY_NODE_COMPARISON_EQUAL
                 | FSEARCH_QUERY_TOKEN_SMALLER \<Rightarrow>
                     parse_numeric_function_value ctx1 flags new_node_func parse_value_func
                       FSEARCH_QUERY_NODE_COMPARISON_SMALLER
                 | FSEARCH_QUERY_TOKEN_SMALLER_EQ \<Rightarrow>
                     parse_numeric_function_value ctx1 flags new_node_func parse_value_func
                       FSEARCH_QUERY_NODE_COMPARISON_SMALLER_EQ
                 | FSEARCH_QUERY_TOKEN_GREATER \<Rightarrow>
                     parse_numeric_function_value ctx1 flags new_node_func parse_value_func
                       FSEARCH_QUERY_NODE_COMPARISON_GREATER
                 | FSEARCH_QUERY_TOKEN_GREATER_EQ \<Rightarrow>
                     parse_numeric_function_value ctx1 flags new_node_func parse_value_func
                       FSEARCH_QUERY_NODE_COMPARISON_GREATER_EQ
                 | FSEARCH_QUERY_TOKEN_WORD \<Rightarrow>
                     (new_list (Some (parse_numeric_field_with_optional_range parse_value_func
                                        new_node_func token_value flags)), ctx1)
                 | _ \<Rightarrow> (new_list (Some NodeMatchNothing), ctx1))))"

type_synonym FsearchTokenFunctionParser =
  "externals \<Rightarrow> FsearchQueryParseContext \<Rightarrow> bool \<Rightarrow> FsearchQueryFlags
     \<Rightarrow> FsearchQueryNode list \<times> FsearchQueryParseContext"

definition parse_function_size :: FsearchTokenFunctionParser where
  "parse_function_size ext parse_ctx is_empty_field flags =
     parse_numeric_function parse_ctx is_empty_field flags NodeSize (fsearch_size_parse ext)"

definition parse_function_empty :: FsearchTokenFunctionParser where
  "parse_function_empty ext parse_ctx is_empty_field flags =
     (new_list (Some (NodeChildCount flags 0 0 FSEARCH_QUERY_NODE_COMPARISON_EQUAL)), parse_ctx)"

definition parse_function_depth :: FsearchTokenFunctionParser where
  "parse_function_depth ext parse_ctx is_empty_field flags =
     parse_numeric_function parse_ctx is_empty_field flags NodeDepth parse_integer"

definition parse_function_childcount :: FsearchTokenFunctionParser where
  "parse_function_childcount ext parse_ctx is_empty_field flags =
     parse_numeric_function parse_ctx is_empty_field flags NodeChildCount parse_integer"

definition parse_function_childfilecount :: FsearchTokenFunctionParser where
  "parse_function_childfilecount ext parse_ctx is_empty_field flags =
     parse_numeric_function parse_ctx is_empty_field flags NodeChildFileCount parse_integer"

definition parse_function_childfoldercount :: FsearchTokenFunctionParser where
  "parse_function_childfoldercount ext parse_ctx is_empty_field flags =
     parse_numeric_function parse_ctx is_empty_field flags NodeChildFolderCount parse_integer"

definition parse_function_date_modified :: FsearchTokenFunctionParser where
  "parse_function_date_modified ext parse_ctx is_empty_field flags =
     parse_numeric_function parse_ctx is_empty_field flags NodeDateModified
       (fsearch_date_time_parse_interval ext)"

definition parse_function_extension :: FsearchTokenFunctionParser where
  "parse_function_extension ext parse_ctx is_empty_field flags =
     (if is_empty_field then (new_list (Some (NodeExtension None flags)), parse_ctx)
      else (case expect_word (lexer parse_ctx) of
              ((is_word, token_value), lx) \<Rightarrow>
                (if is_word
                 then (new_list (Some (NodeExtension (Some token_value) flags)),
                       parse_ctx\<lparr>lexer := lx\<rparr>)
                 else (new_list (Some NodeMatchNothing), parse_ctx\<lparr>lexer := lx\<rparr>))))"

definition parse_function_contenttype :: FsearchTokenFunctionParser where
  "parse_function_contenttype ext parse_ctx is_empty_field flags =
     (if is_empty_field then (new_list (Some (NodeMatchEverything flags)), parse_ctx)
      else (case expect_word (lexer parse_ctx) of
              ((is_word, token_value), lx) \<Rightarrow>
                (if is_word
                 then (new_list (Some (NodeContentType token_value flags)),
                       parse_ctx\<lparr>lexer := lx\<rparr>)
                 else (new_list (Some NodeMatchNothing), parse_ctx\<lparr>lexer := lx\<rparr>))))"

definition parse_function_parent :: FsearchTokenFunctionParser where
  "parse_function_parent ext parse_ctx is_empty_field flags =
     (let parent_flags = insert QUERY_FLAG_EXACT_MATCH flags in
      if is_empty_field then (new_list (Some (NodeParent [] parent_flags)), parse_ctx)
      else (case expect_word (lexer parse_ctx) of
              ((is_word, token_value), lx) \<Rightarrow>
                (if is_word
                 then (new_list (Some (NodeParent token_value parent_flags)),
                       parse_ctx\<lparr>lexer := lx\<rparr>)
                 else (new_list (Some NodeMatchNothing), parse_ctx\<lparr>lexer := lx\<rparr>))))"

subsection \<open>The tables of modifiers and functions\<close>

datatype FsearchQueryFlagOperation = ADD_FLAG | REMOVE_FLAG

definition supported_modifiers ::
  "(string \<times> FsearchQueryFlag \<times> FsearchQueryFlagOperation) list" where
  "supported_modifiers =
     [(''case'', QUERY_FLAG_MATCH_CASE, ADD_FLAG),
      (''nocase'', QUERY_FLAG_MATCH_CASE, REMOVE_FLAG),
      (''exact'', QUERY_FLAG_EXACT_MATCH, ADD_FLAG),
      (''file'', QUERY_FLAG_FILES_ONLY, ADD_FLAG),
      (''nofileonly'', QUERY_FLAG_FILES_ONLY, REMOVE_FLAG),
      (''files'', QUERY_FLAG_FILES_ONLY, ADD_FLAG),
      (''nofilesonly'', QUERY_FLAG_FILES_ONLY, REMOVE_FLAG),
      (''folder'', QUERY_FLAG_FOLDERS_ONLY, ADD_FLAG),
      (''nofolderonly'', QUERY_FLAG_FOLDERS_ONLY, REMOVE_FLAG),
      (''folders'', QUERY_FLAG_FOLDERS_ONLY, ADD_FLAG),
      (''nofoldersonly'', QUERY_FLAG_FOLDERS_ONLY, REMOVE_FLAG),
      (''path'', QUERY_FLAG_SEARCH_IN_PATH, ADD_FLAG),
      (''nopath'', QUERY_FLAG_SEARCH_IN_PATH, REMOVE_FLAG),
      (''regex'', QUERY_FLAG_REGEX, ADD_FLAG),
      (''noregex'', QUERY_FLAG_REGEX, REMOVE_FLAG)]"

definition supported_functions :: "(string \<times> FsearchTokenFunctionParser) list" where
  "supported_functions =
     [(''childcount'', parse_function_childcount),
      (''childfilecount'', parse_function_childfilecount),
      (''childfoldercount'', parse_function_childfoldercount),
      (''contenttype'', parse_function_contenttype),
      (''depth'', parse_function_depth),
      (''dm'', parse_function_date_modified),
      (''datemodified'', parse_function_date_modified),
      (''empty'', parse_function_empty),
      (''ext'', parse_function_extension),
      (''parent'', parse_function_parent),
      (''parents'', parse_function_depth),
      (''size'', parse_function_size)]"

text \<open>The flag update of \<^verbatim>\<open>parse_field\<close>, lines 452 to 457.\<close>

definition apply_flag_operation ::
  "FsearchQueryFlagOperation \<Rightarrow> FsearchQueryFlag \<Rightarrow> FsearchQueryFlags \<Rightarrow> FsearchQueryFlags" where
  "apply_flag_operation flag_operation flag flags =
     (if flag_operation = ADD_FLAG then insert flag flags else flags - {flag})"

subsection \<open>Operators and the operator stack\<close>

definition parse_word :: "string \<Rightarrow> FsearchQueryFlags \<Rightarrow> FsearchQueryNode list" where
  "parse_word field_name flags = new_list (Some (NodeWord field_name flags))"

definition top_query_token :: "FsearchQueryToken list \<Rightarrow> FsearchQueryToken" where
  "top_query_token stack = (case stack of [] \<Rightarrow> FSEARCH_QUERY_TOKEN_NONE | t # _ \<Rightarrow> t)"

definition pop_query_token ::
  "FsearchQueryToken list \<Rightarrow> FsearchQueryToken \<times> FsearchQueryToken list" where
  "pop_query_token stack = (case stack of [] \<Rightarrow> (FSEARCH_QUERY_TOKEN_NONE, []) | t # r \<Rightarrow> (t, r))"

definition push_query_token ::
  "FsearchQueryToken list \<Rightarrow> FsearchQueryToken \<Rightarrow> FsearchQueryToken list" where
  "push_query_token stack token = token # stack"

fun get_operator_precedence :: "FsearchQueryToken \<Rightarrow> nat" where
  "get_operator_precedence FSEARCH_QUERY_TOKEN_NOT = 3"
| "get_operator_precedence FSEARCH_QUERY_TOKEN_AND = 2"
| "get_operator_precedence FSEARCH_QUERY_TOKEN_OR = 1"
| "get_operator_precedence _ = 0"

fun get_operator_node_for_query_token :: "FsearchQueryToken \<Rightarrow> FsearchQueryNode option" where
  "get_operator_node_for_query_token FSEARCH_QUERY_TOKEN_AND =
     Some (NodeOperator FSEARCH_QUERY_NODE_OPERATOR_AND)"
| "get_operator_node_for_query_token FSEARCH_QUERY_TOKEN_OR =
     Some (NodeOperator FSEARCH_QUERY_NODE_OPERATOR_OR)"
| "get_operator_node_for_query_token FSEARCH_QUERY_TOKEN_NOT =
     Some (NodeOperator FSEARCH_QUERY_NODE_OPERATOR_NOT)"
| "get_operator_node_for_query_token _ = None"

fun is_operand_token :: "FsearchQueryToken \<Rightarrow> bool" where
  "is_operand_token FSEARCH_QUERY_TOKEN_WORD = True"
| "is_operand_token FSEARCH_QUERY_TOKEN_FIELD = True"
| "is_operand_token FSEARCH_QUERY_TOKEN_FIELD_EMPTY = True"
| "is_operand_token _ = False"

definition is_binary_operator_token :: "FsearchQueryToken \<Rightarrow> bool" where
  "is_binary_operator_token token \<longleftrightarrow>
     token = FSEARCH_QUERY_TOKEN_AND \<or> token = FSEARCH_QUERY_TOKEN_OR"

definition is_operator_token :: "FsearchQueryToken \<Rightarrow> bool" where
  "is_operator_token token \<longleftrightarrow>
     is_binary_operator_token token \<or> token = FSEARCH_QUERY_TOKEN_NOT"

definition is_operator_token_followed_by_operand ::
  "FsearchQueryLexer \<Rightarrow> FsearchQueryToken \<Rightarrow> bool" where
  "is_operator_token_followed_by_operand lx op_token =
     (let next_token = fsearch_query_lexer_peek_next_token lx in
      if is_binary_operator_token op_token \<and> next_token = FSEARCH_QUERY_TOKEN_NOT then True
      else is_operand_token next_token \<or> next_token = FSEARCH_QUERY_TOKEN_BRACKET_OPEN)"

text \<open>
  \<^verbatim>\<open>parse_operator\<close>, lines 588 to 603. Its loop pops the stack while the precedence of
  the top is at least that of the new operator.
\<close>

fun parse_operator_pop ::
  "FsearchQueryToken \<Rightarrow> FsearchQueryToken list \<Rightarrow> FsearchQueryNode list
     \<Rightarrow> FsearchQueryNode list \<times> FsearchQueryToken list" where
  "parse_operator_pop token [] res = (res, [])"
| "parse_operator_pop token (t # stack) res =
     (if get_operator_precedence token \<le> get_operator_precedence t
      then parse_operator_pop token stack
             (append_to_list_if_nonnull res (get_operator_node_for_query_token t))
      else (res, t # stack))"

definition parse_operator ::
  "FsearchQueryParseContext \<Rightarrow> FsearchQueryToken
     \<Rightarrow> FsearchQueryNode list \<times> FsearchQueryParseContext" where
  "parse_operator parse_ctx token =
     (case parse_operator_pop token (operator_stack parse_ctx) [] of
        (res, stack) \<Rightarrow>
          (res, parse_ctx\<lparr>last_token := token, operator_stack := push_query_token stack token\<rparr>))"

definition get_implicit_and_if_necessary ::
  "FsearchQueryParseContext \<Rightarrow> FsearchQueryToken \<Rightarrow> FsearchQueryToken
     \<Rightarrow> FsearchQueryNode list \<times> FsearchQueryParseContext" where
  "get_implicit_and_if_necessary parse_ctx last_tok next_token =
     (if (is_operand_token last_tok \<or> last_tok = FSEARCH_QUERY_TOKEN_BRACKET_CLOSE)
         \<and> (is_operand_token next_token \<or> next_token = FSEARCH_QUERY_TOKEN_BRACKET_OPEN
              \<or> next_token = FSEARCH_QUERY_TOKEN_NOT)
      then parse_operator parse_ctx FSEARCH_QUERY_TOKEN_AND
      else ([], parse_ctx))"

text \<open>
  \<^verbatim>\<open>consume_consecutive_not_token\<close>, lines 605 to 613: the second argument is the local
  \<^verbatim>\<open>uneven_number_of_not_tokens\<close>, which starts as \<^verbatim>\<open>true\<close>.
\<close>

fun consume_consecutive_not_token_loop ::
  "FsearchQueryLexer \<Rightarrow> bool \<Rightarrow> bool \<times> FsearchQueryLexer" where
  "consume_consecutive_not_token_loop [] uneven = (uneven, [])"
| "consume_consecutive_not_token_loop (t # rest) uneven =
     (if fst t = FSEARCH_QUERY_TOKEN_NOT
      then consume_consecutive_not_token_loop rest (\<not> uneven)
      else (uneven, t # rest))"

definition consume_consecutive_not_token :: "FsearchQueryLexer \<Rightarrow> bool \<times> FsearchQueryLexer" where
  "consume_consecutive_not_token lx = consume_consecutive_not_token_loop lx True"

fun discard_consecutive_binary_operator_tokens :: "FsearchQueryLexer \<Rightarrow> FsearchQueryLexer" where
  "discard_consecutive_binary_operator_tokens [] = []"
| "discard_consecutive_binary_operator_tokens (t # rest) =
     (if is_binary_operator_token (fst t)
      then discard_consecutive_binary_operator_tokens rest
      else t # rest)"

text \<open>
  \<^verbatim>\<open>parse_close_bracket\<close>, lines 623 to 648. The loop pops operators until it finds an
  open bracket; on a stack without one it reaches \<^verbatim>\<open>g_assert_not_reached\<close>.
\<close>

fun parse_close_bracket_pop ::
  "FsearchQueryToken list \<Rightarrow> FsearchQueryNode list
     \<Rightarrow> error + FsearchQueryNode list \<times> FsearchQueryToken list" where
  "parse_close_bracket_pop [] res = Inl AssertNotReached"
| "parse_close_bracket_pop (t # stack) res =
     (if t = FSEARCH_QUERY_TOKEN_BRACKET_OPEN then Inr (res, stack)
      else if t = FSEARCH_QUERY_TOKEN_NONE then Inl AssertNotReached
      else parse_close_bracket_pop stack
             (append_to_list_if_nonnull res (get_operator_node_for_query_token t)))"

definition parse_close_bracket ::
  "FsearchQueryParseContext \<Rightarrow> error + FsearchQueryNode list \<times> FsearchQueryParseContext" where
  "parse_close_bracket parse_ctx =
     (case parse_close_bracket_pop (operator_stack parse_ctx) [] of
        Inl e \<Rightarrow> Inl e
      | Inr (res, stack) \<Rightarrow>
          Inr (res, parse_ctx\<lparr>operator_stack := stack,
                              last_token := FSEARCH_QUERY_TOKEN_BRACKET_CLOSE\<rparr>))"

definition parse_open_bracket ::
  "FsearchQueryParseContext \<Rightarrow> FsearchQueryNode list \<times> FsearchQueryParseContext" where
  "parse_open_bracket parse_ctx =
     (case get_implicit_and_if_necessary parse_ctx (last_token parse_ctx)
             FSEARCH_QUERY_TOKEN_BRACKET_OPEN of
        (res, ctx1) \<Rightarrow>
          (res, ctx1\<lparr>last_token := FSEARCH_QUERY_TOKEN_BRACKET_OPEN,
                     operator_stack :=
                       push_query_token (operator_stack ctx1) FSEARCH_QUERY_TOKEN_BRACKET_OPEN\<rparr>))"

subsection \<open>The expression parser\<close>

text \<open>The three operator cases and the open bracket case of the parser's \<^verbatim>\<open>switch\<close>
  (lines 679 to 704). Each returns the list \<^verbatim>\<open>to_append\<close> and the new context; the case
  of \<^verbatim>\<open>NOT\<close> returns \<^verbatim>\<open>skip_implicit_and_check\<close> as well.\<close>

definition switch_not ::
  "FsearchQueryParseContext \<Rightarrow> FsearchQueryToken
     \<Rightarrow> FsearchQueryNode list \<times> FsearchQueryParseContext \<times> bool" where
  "switch_not parse_ctx last_tok =
     (case consume_consecutive_not_token (lexer parse_ctx) of
        (uneven, lx) \<Rightarrow>
          (let ctx1 = parse_ctx\<lparr>lexer := lx\<rparr> in
           if uneven \<and> is_operator_token_followed_by_operand (lexer ctx1) FSEARCH_QUERY_TOKEN_NOT
           then (case get_implicit_and_if_necessary ctx1 last_tok FSEARCH_QUERY_TOKEN_NOT of
                   (implicit_and, ctx2) \<Rightarrow>
                     (case parse_operator ctx2 FSEARCH_QUERY_TOKEN_NOT of
                        (popped, ctx3) \<Rightarrow> (implicit_and @ popped, ctx3, True)))
           else ([], ctx1, False)))"

definition switch_and_or ::
  "FsearchQueryParseContext \<Rightarrow> FsearchQueryToken
     \<Rightarrow> FsearchQueryNode list \<times> FsearchQueryParseContext" where
  "switch_and_or parse_ctx token =
     (if is_operator_token_followed_by_operand (lexer parse_ctx) token
      then parse_operator parse_ctx token
      else ([], parse_ctx))"

definition switch_bracket_open ::
  "FsearchQueryParseContext \<Rightarrow> FsearchQueryNode list \<times> FsearchQueryParseContext" where
  "switch_bracket_open parse_ctx =
     (case parse_open_bracket parse_ctx of
        (to_append, ctx1) \<Rightarrow>
          (to_append, ctx1\<lparr>lexer := discard_consecutive_binary_operator_tokens (lexer ctx1)\<rparr>))"

text \<open>The end of the loop body, lines 742 to 748: the result of the token is appended,
  after an implicit \<^verbatim>\<open>AND\<close> where one is due.\<close>

definition append_parsed ::
  "FsearchQueryParseContext \<Rightarrow> FsearchQueryToken \<Rightarrow> FsearchQueryToken \<Rightarrow> bool
     \<Rightarrow> FsearchQueryNode list \<Rightarrow> FsearchQueryNode list
     \<Rightarrow> FsearchQueryNode list \<times> FsearchQueryParseContext" where
  "append_parsed parse_ctx last_tok token skip_implicit_and_check to_append res =
     (if to_append = [] then (res, parse_ctx)
      else if skip_implicit_and_check
      then (res @ to_append, parse_ctx\<lparr>last_token := token\<rparr>)
      else (case get_implicit_and_if_necessary parse_ctx last_tok token of
              (implicit_and, ctx1) \<Rightarrow>
                ((res @ implicit_and) @ to_append, ctx1\<lparr>last_token := token\<rparr>)))"

text \<open>The loop after the label \<^verbatim>\<open>out\<close>, lines 751 to 756.\<close>

fun pop_remaining_operators ::
  "FsearchQueryToken list \<Rightarrow> FsearchQueryNode list \<Rightarrow> FsearchQueryNode list" where
  "pop_remaining_operators [] res = res"
| "pop_remaining_operators (t # stack) res =
     pop_remaining_operators stack
       (append_to_list_if_nonnull res (get_operator_node_for_query_token t))"

text \<open>The scan of the macro registry for the first filter of a name, with its position.\<close>

fun find_filter :: "FsearchFilter list \<Rightarrow> string \<Rightarrow> nat \<Rightarrow> (nat \<times> FsearchFilter) option" where
  "find_filter [] name i = None"
| "find_filter (f # fs) name i =
     (if name = macro f then Some (i, f) else find_filter fs name (Suc i))"

text \<open>
  The expression parser and the field parsers call each other: a modifier followed by an
  open bracket and a macro both parse an expression, whose fields may be modifiers and
  macros again. Nothing in the shape of the four functions bounds this recursion, so
  they are defined together as one partial function over the call that is made: a run
  that never returns has the value \<open>None\<close>, a run that returns has \<open>Some\<close> of its
  result, and the result is \<open>Inl\<close> of an error when \<^verbatim>\<open>g_assert_not_reached\<close> was met.
  That every call returns is theorem \<open>parser_terminates\<close> below.

  \<open>Call_parse_expression_loop\<close> is the loop of \<^verbatim>\<open>fsearch_query_parser_parse_expression\<close>
  (lines 665 to 756); its last three arguments are the locals \<^verbatim>\<open>res\<close>,
  \<^verbatim>\<open>num_open_brackets\<close> and \<^verbatim>\<open>num_close_brackets\<close>, the counters being \<^verbatim>\<open>uint32_t\<close>.
  The other three calls are \<^verbatim>\<open>parse_field\<close> (lines 444 to 469), \<^verbatim>\<open>parse_modifier\<close>
  (lines 365 to 386) and \<^verbatim>\<open>parse_filter_macros\<close> (lines 388 to 442).
\<close>

datatype parser_call =
    Call_parse_expression_loop FsearchQueryParseContext bool FsearchQueryFlags
      "FsearchQueryNode list" "32 word" "32 word"
  | Call_parse_field FsearchQueryParseContext string bool FsearchQueryFlags
  | Call_parse_modifier FsearchQueryParseContext bool FsearchQueryFlags
  | Call_parse_filter_macros FsearchQueryParseContext string FsearchQueryFlags

type_synonym parse_result = "error + FsearchQueryNode list \<times> FsearchQueryParseContext"

partial_function (option) parser :: "externals \<Rightarrow> parser_call \<Rightarrow> parse_result option" where
  "parser ext call =
     (case call of
        Call_parse_expression_loop parse_ctx in_open_bracket flags res
          num_open_brackets num_close_brackets \<Rightarrow>
          (case fsearch_query_lexer_get_next_token (lexer parse_ctx) of
             ((token, token_value), lx) \<Rightarrow>
               (let ctx0 = parse_ctx\<lparr>lexer := lx\<rparr>;
                    last_tok = last_token parse_ctx
                in case token of
                     FSEARCH_QUERY_TOKEN_EOS \<Rightarrow>
                       Some (Inr (pop_remaining_operators (operator_stack ctx0) res,
                                  ctx0\<lparr>operator_stack := []\<rparr>))
                   | FSEARCH_QUERY_TOKEN_NOT \<Rightarrow>
                       (case switch_not ctx0 last_tok of
                          (to_append, ctx1, skip_implicit_and_check) \<Rightarrow>
                            (case append_parsed ctx1 last_tok token skip_implicit_and_check
                                    to_append res of
                               (res', ctx2) \<Rightarrow>
                                 parser ext (Call_parse_expression_loop ctx2 in_open_bracket
                                   flags res' num_open_brackets num_close_brackets)))
                   | FSEARCH_QUERY_TOKEN_AND \<Rightarrow>
                       (case switch_and_or ctx0 token of
                          (to_append, ctx1) \<Rightarrow>
                            (case append_parsed ctx1 last_tok token False to_append res of
                               (res', ctx2) \<Rightarrow>
                                 parser ext (Call_parse_expression_loop ctx2 in_open_bracket
                                   flags res' num_open_brackets num_close_brackets)))
                   | FSEARCH_QUERY_TOKEN_OR \<Rightarrow>
                       (case switch_and_or ctx0 token of
                          (to_append, ctx1) \<Rightarrow>
                            (case append_parsed ctx1 last_tok token False to_append res of
                               (res', ctx2) \<Rightarrow>
                                 parser ext (Call_parse_expression_loop ctx2 in_open_bracket
                                   flags res' num_open_brackets num_close_brackets)))
                   | FSEARCH_QUERY_TOKEN_BRACKET_OPEN \<Rightarrow>
                       (case switch_bracket_open ctx0 of
                          (to_append, ctx1) \<Rightarrow>
                            (case append_parsed ctx1 last_tok token False to_append res of
                               (res', ctx2) \<Rightarrow>
                                 parser ext (Call_parse_expression_loop ctx2 in_open_bracket
                                   flags res' (num_open_brackets + 1) num_close_brackets)))
                   | FSEARCH_QUERY_TOKEN_BRACKET_CLOSE \<Rightarrow>
                       (if num_open_brackets > num_close_brackets
                        then (case parse_close_bracket ctx0 of
                                Inl e \<Rightarrow> Some (Inl e)
                              | Inr (to_append, ctx1) \<Rightarrow>
                                  (if in_open_bracket
                                      \<and> num_close_brackets + 1 = num_open_brackets
                                   then Some (Inr (res @ to_append, ctx1))
                                   else (case append_parsed ctx1 last_tok token False
                                                to_append res of
                                           (res', ctx2) \<Rightarrow>
                                             parser ext (Call_parse_expression_loop ctx2
                                               in_open_bracket flags res' num_open_brackets
                                               (num_close_brackets + 1)))))
                        else Some (Inr (new_list (Some NodeMatchNothing), ctx0)))
                   | FSEARCH_QUERY_TOKEN_WORD \<Rightarrow>
                       (case append_parsed ctx0 last_tok token False
                               (parse_word token_value flags) res of
                          (res', ctx2) \<Rightarrow>
                            parser ext (Call_parse_expression_loop ctx2 in_open_bracket
                              flags res' num_open_brackets num_close_brackets))
                   | FSEARCH_QUERY_TOKEN_FIELD \<Rightarrow>
                       Option.bind (parser ext (Call_parse_field ctx0 token_value False flags))
                         (\<lambda>r. case r of
                                Inl e \<Rightarrow> Some (Inl e)
                              | Inr (to_append, ctx1) \<Rightarrow>
                                  (case append_parsed ctx1 last_tok token False to_append res of
                                     (res', ctx2) \<Rightarrow>
                                       parser ext (Call_parse_expression_loop ctx2
                                         in_open_bracket flags res' num_open_brackets
                                         num_close_brackets)))
                   | FSEARCH_QUERY_TOKEN_FIELD_EMPTY \<Rightarrow>
                       Option.bind (parser ext (Call_parse_field ctx0 token_value True flags))
                         (\<lambda>r. case r of
                                Inl e \<Rightarrow> Some (Inl e)
                              | Inr (to_append, ctx1) \<Rightarrow>
                                  (case append_parsed ctx1 last_tok token False to_append res of
                                     (res', ctx2) \<Rightarrow>
                                       parser ext (Call_parse_expression_loop ctx2
                                         in_open_bracket flags res' num_open_brackets
                                         num_close_brackets)))
                   | _ \<Rightarrow>
                       parser ext (Call_parse_expression_loop ctx0 in_open_bracket flags res
                         num_open_brackets num_close_brackets)))
      | Call_parse_field parse_ctx field_name is_empty_field flags \<Rightarrow>
          Option.bind (parser ext (Call_parse_filter_macros parse_ctx field_name flags))
            (\<lambda>r. case r of
                   Inl e \<Rightarrow> Some (Inl e)
                 | Inr (res, ctx1) \<Rightarrow>
                     (if res = []
                      then (case find (\<lambda>modifier. fst modifier = field_name)
                                   supported_modifiers of
                              Some (name, flag, flag_operation) \<Rightarrow>
                                parser ext (Call_parse_modifier ctx1 is_empty_field
                                  (apply_flag_operation flag_operation flag flags))
                            | None \<Rightarrow>
                                (case find (\<lambda>function. fst function = field_name)
                                        supported_functions of
                                   Some (name, function_parser) \<Rightarrow>
                                     Some (Inr (function_parser ext ctx1 is_empty_field flags))
                                 | None \<Rightarrow>
                                     Some (Inr (new_list (Some NodeMatchNothing), ctx1))))
                      else Some (Inr (res, ctx1))))
      | Call_parse_modifier parse_ctx is_empty_field flags \<Rightarrow>
          (if is_empty_field
           then Some (Inr (new_list (Some (NodeMatchEverything flags)), parse_ctx))
           else (case fsearch_query_lexer_get_next_token (lexer parse_ctx) of
                   ((token, token_value), lx) \<Rightarrow>
                     (let ctx0 = parse_ctx\<lparr>lexer := lx\<rparr>
                      in if token = FSEARCH_QUERY_TOKEN_WORD
                         then Some (Inr (parse_word token_value flags, ctx0))
                         else if token = FSEARCH_QUERY_TOKEN_BRACKET_OPEN
                         then (case parse_open_bracket ctx0 of
                                 (res, ctx1) \<Rightarrow>
                                   Option.bind
                                     (parser ext (Call_parse_expression_loop ctx1 True flags
                                        [] 1 0))
                                     (\<lambda>r. case r of
                                            Inl e \<Rightarrow> Some (Inl e)
                                          | Inr (res', ctx2) \<Rightarrow> Some (Inr (res @ res', ctx2))))
                         else if token = FSEARCH_QUERY_TOKEN_FIELD
                         then parser ext (Call_parse_field ctx0 token_value False flags)
                         else if token = FSEARCH_QUERY_TOKEN_FIELD_EMPTY
                         then parser ext (Call_parse_field ctx0 token_value True flags)
                         else Some (Inr (new_list (Some NodeMatchNothing), ctx0)))))
      | Call_parse_filter_macros parse_ctx name flags \<Rightarrow>
          (case find_filter (macro_filters parse_ctx) name 0 of
             None \<Rightarrow> Some (Inr ([], parse_ctx))
           | Some (i, filt) \<Rightarrow>
               (if i \<in> set (macro_stack parse_ctx) then Some (Inr ([], parse_ctx))
                else if fsearch_string_is_empty (query filt) then Some (Inr ([], parse_ctx))
                else (let flags1 = (if QUERY_FLAG_SEARCH_IN_PATH \<in> filter_flags filt
                                    then insert QUERY_FLAG_SEARCH_IN_PATH flags else flags);
                          flags2 = (if QUERY_FLAG_MATCH_CASE \<in> filter_flags filt
                                    then insert QUERY_FLAG_MATCH_CASE flags1 else flags1);
                          flags3 = (if QUERY_FLAG_REGEX \<in> filter_flags filt
                                    then insert QUERY_FLAG_REGEX flags2 else flags2);
                          main_operator_stack = operator_stack parse_ctx;
                          main_lexer = lexer parse_ctx;
                          ctx1 = parse_ctx\<lparr>macro_stack := macro_stack parse_ctx @ [i],
                                           lexer := fsearch_query_lexer_new ext (query filt),
                                           operator_stack := []\<rparr>
                      in Option.bind
                           (parser ext (Call_parse_expression_loop ctx1 False flags3 [] 0 0))
                           (\<lambda>r. case r of
                                  Inl e \<Rightarrow> Some (Inl e)
                                | Inr (res, ctx2) \<Rightarrow>
                                    Some (Inr (res,
                                      ctx2\<lparr>operator_stack := main_operator_stack,
                                           lexer := main_lexer,
                                           macro_stack := butlast (macro_stack ctx2)\<rparr>)))))))"

declare parser.simps [code]

text \<open>The four functions, by the names they have in the source.\<close>

definition parse_expression_loop ::
  "externals \<Rightarrow> FsearchQueryParseContext \<Rightarrow> bool \<Rightarrow> FsearchQueryFlags
     \<Rightarrow> FsearchQueryNode list \<Rightarrow> 32 word \<Rightarrow> 32 word \<Rightarrow> parse_result option" where
  "parse_expression_loop ext parse_ctx in_open_bracket flags res
     num_open_brackets num_close_brackets =
     parser ext (Call_parse_expression_loop parse_ctx in_open_bracket flags res
       num_open_brackets num_close_brackets)"

definition parse_field ::
  "externals \<Rightarrow> FsearchQueryParseContext \<Rightarrow> string \<Rightarrow> bool \<Rightarrow> FsearchQueryFlags
     \<Rightarrow> parse_result option" where
  "parse_field ext parse_ctx field_name is_empty_field flags =
     parser ext (Call_parse_field parse_ctx field_name is_empty_field flags)"

definition parse_modifier ::
  "externals \<Rightarrow> FsearchQueryParseContext \<Rightarrow> bool \<Rightarrow> FsearchQueryFlags
     \<Rightarrow> parse_result option" where
  "parse_modifier ext parse_ctx is_empty_field flags =
     parser ext (Call_parse_modifier parse_ctx is_empty_field flags)"

definition parse_filter_macros ::
  "externals \<Rightarrow> FsearchQueryParseContext \<Rightarrow> string \<Rightarrow> FsearchQueryFlags
     \<Rightarrow> parse_result option" where
  "parse_filter_macros ext parse_ctx name flags =
     parser ext (Call_parse_filter_macros parse_ctx name flags)"

text \<open>
  \<^verbatim>\<open>fsearch_query_parser_parse_expression\<close> (lines 658 to 757) sets up the locals and
  runs the loop.
\<close>

definition fsearch_query_parser_parse_expression ::
  "externals \<Rightarrow> FsearchQueryParseContext \<Rightarrow> bool \<Rightarrow> FsearchQueryFlags
     \<Rightarrow> parse_result option" where
  "fsearch_query_parser_parse_expression ext parse_ctx in_open_bracket flags =
     parse_expression_loop ext parse_ctx in_open_bracket flags []
       (if in_open_bracket then 1 else 0) 0"

text \<open>
  Modelled from the spec: the context that a caller of the top level provides (its
  constructor is not among the sources): a lexer at the first token, an empty operator
  stack, an empty macro stack, the macro registry, and \<^verbatim>\<open>FSEARCH_QUERY_TOKEN_NONE\<close> as the
  last token.
\<close>

definition initial_context ::
  "FsearchFilter list \<Rightarrow> FsearchQueryLexer \<Rightarrow> FsearchQueryParseContext" where
  "initial_context filters lx =
     \<lparr>lexer = lx, operator_stack = [], macro_stack = [], macro_filters = filters,
      last_token = FSEARCH_QUERY_TOKEN_NONE\<rparr>"

subsection \<open>Notions that the properties are stated with\<close>

text \<open>
  The stack evaluator of a postfix list: a leaf pushes one value, \<^verbatim>\<open>AND\<close> and \<^verbatim>\<open>OR\<close> pop
  two values and push one, \<^verbatim>\<open>NOT\<close> pops one and pushes one. The second argument is the
  height of the stack; the result is \<open>None\<close> when an operator finds too few values. A
  list is well formed when the evaluator ends with exactly one value.
\<close>

fun postfix_stack_eval :: "FsearchQueryNode list \<Rightarrow> nat \<Rightarrow> nat option" where
  "postfix_stack_eval [] h = Some h"
| "postfix_stack_eval (NodeOperator operator # rest) h =
     (if operator = FSEARCH_QUERY_NODE_OPERATOR_NOT
      then (if 1 \<le> h then postfix_stack_eval rest h else None)
      else (if 2 \<le> h then postfix_stack_eval rest (h - 1) else None))"
| "postfix_stack_eval (leaf # rest) h = postfix_stack_eval rest (Suc h)"

definition well_formed_postfix :: "FsearchQueryNode list \<Rightarrow> bool" where
  "well_formed_postfix res \<longleftrightarrow> postfix_stack_eval res 0 = Some 1"

text \<open>
  An instance of the external functions, for the examples: its lexer makes a macro's
  text of the form \<^verbatim>\<open>name:\<close> an empty field and any other text one word, and both value
  parsers are \<open>parse_integer\<close>.
\<close>

definition example_lexer_new :: "string \<Rightarrow> FsearchQueryLexer" where
  "example_lexer_new s =
     (if s \<noteq> [] \<and> last s = CHR '':'' then [(FSEARCH_QUERY_TOKEN_FIELD_EMPTY, butlast s)]
      else [(FSEARCH_QUERY_TOKEN_WORD, s)])"

definition example_externals :: externals where
  "example_externals =
     \<lparr>fsearch_query_lexer_new = example_lexer_new,
      fsearch_size_parse = parse_integer,
      fsearch_date_time_parse_interval = parse_integer\<rparr>"

text \<open>
  The kinds of the tokens of a stream, and the streams with a prefix that holds more
  closing than opening brackets: \<open>excess_close kinds d\<close> says so for a stream read at
  bracket depth \<open>d\<close>.
\<close>

definition token_kinds :: "FsearchQueryLexer \<Rightarrow> FsearchQueryToken list" where
  "token_kinds lx = map fst lx"

fun excess_close :: "FsearchQueryToken list \<Rightarrow> nat \<Rightarrow> bool" where
  "excess_close [] d = False"
| "excess_close (t # ts) d =
     (if t = FSEARCH_QUERY_TOKEN_BRACKET_OPEN then excess_close ts (Suc d)
      else if t = FSEARCH_QUERY_TOKEN_BRACKET_CLOSE then (d = 0 \<or> excess_close ts (d - 1))
      else excess_close ts d)"

text \<open>
  The measure of a call, for the proof that the parser returns: the filters of the
  registry that are not on the macro stack, the tokens left in the lexer, and the kind
  of the call.
\<close>

fun call_context :: "parser_call \<Rightarrow> FsearchQueryParseContext" where
  "call_context (Call_parse_expression_loop parse_ctx _ _ _ _ _) = parse_ctx"
| "call_context (Call_parse_field parse_ctx _ _ _) = parse_ctx"
| "call_context (Call_parse_modifier parse_ctx _ _) = parse_ctx"
| "call_context (Call_parse_filter_macros parse_ctx _ _) = parse_ctx"

fun call_rank :: "parser_call \<Rightarrow> nat" where
  "call_rank (Call_parse_expression_loop _ _ _ _ _ _) = 0"
| "call_rank (Call_parse_field _ _ _ _) = 2"
| "call_rank (Call_parse_modifier _ _ _) = 1"
| "call_rank (Call_parse_filter_macros _ _ _) = 1"

definition unexpanded_filters :: "FsearchQueryParseContext \<Rightarrow> nat" where
  "unexpanded_filters parse_ctx =
     length (filter (\<lambda>i. i \<notin> set (macro_stack parse_ctx)) [0..<length (macro_filters parse_ctx)])"

definition call_measure :: "parser_call \<Rightarrow> nat \<times> nat \<times> nat" where
  "call_measure call =
     (unexpanded_filters (call_context call), length (lexer (call_context call)), call_rank call)"

text \<open>
  What a call leaves of the context it was given: no more tokens than before, and the
  same macro stack and registry.
\<close>

definition context_after :: "FsearchQueryParseContext \<Rightarrow> FsearchQueryParseContext \<Rightarrow> bool" where
  "context_after ctx' parse_ctx \<longleftrightarrow>
     length (lexer ctx') \<le> length (lexer parse_ctx)
     \<and> macro_stack ctx' = macro_stack parse_ctx
     \<and> macro_filters ctx' = macro_filters parse_ctx"

definition same_input :: "FsearchQueryParseContext \<Rightarrow> FsearchQueryParseContext \<Rightarrow> bool" where
  "same_input ctx' parse_ctx \<longleftrightarrow>
     lexer ctx' = lexer parse_ctx
     \<and> macro_stack ctx' = macro_stack parse_ctx
     \<and> macro_filters ctx' = macro_filters parse_ctx"

text \<open>
  A call returns: the parser has a result for it, and a result that is not an error
  holds a context after the call's.
\<close>

definition call_returns :: "externals \<Rightarrow> parser_call \<Rightarrow> bool" where
  "call_returns ext call \<longleftrightarrow>
     (\<exists>r. parser ext call = Some r
          \<and> (\<forall>res ctx'. r = Inr (res, ctx') \<longrightarrow> context_after ctx' (call_context call)))"

text \<open>
  A token that the loop of the parser handles itself: not a field, whose parser reads
  on in the stream, and not the end-of-stream token, which ends the stream.
\<close>

definition plain_token :: "FsearchQueryToken \<Rightarrow> bool" where
  "plain_token t \<longleftrightarrow> t \<noteq> FSEARCH_QUERY_TOKEN_FIELD \<and> t \<noteq> FSEARCH_QUERY_TOKEN_FIELD_EMPTY
     \<and> t \<noteq> FSEARCH_QUERY_TOKEN_EOS"

text \<open>
  The operator stack holds at least \<open>d\<close> open brackets, and only tokens that were
  pushed.
\<close>

definition bracket_state :: "FsearchQueryParseContext \<Rightarrow> nat \<Rightarrow> bool" where
  "bracket_state parse_ctx d \<longleftrightarrow>
     d \<le> count_list (operator_stack parse_ctx) FSEARCH_QUERY_TOKEN_BRACKET_OPEN
     \<and> FSEARCH_QUERY_TOKEN_NONE \<notin> set (operator_stack parse_ctx)"

text \<open>
  What the tokens after a field token are read as. A field token without text after
  its colon (the empty field token) takes no argument. Otherwise the argument depends
  on the name of the field: a modifier reads the next token, which may open a bracket
  or be a field with an argument of its own; a numeric function reads the next token,
  and after a comparison token one more; the functions of \<^verbatim>\<open>contenttype\<close>, \<^verbatim>\<open>ext\<close> and
  \<^verbatim>\<open>parent\<close> read the next token; \<^verbatim>\<open>empty\<close> and an unknown name read nothing.
\<close>

datatype argument_kind = No_Argument | Word_Argument | Numeric_Argument | Modifier_Argument

definition comparison_token :: "FsearchQueryToken \<Rightarrow> bool" where
  "comparison_token t \<longleftrightarrow>
     t = FSEARCH_QUERY_TOKEN_EQUAL \<or> t = FSEARCH_QUERY_TOKEN_SMALLER
     \<or> t = FSEARCH_QUERY_TOKEN_SMALLER_EQ \<or> t = FSEARCH_QUERY_TOKEN_GREATER
     \<or> t = FSEARCH_QUERY_TOKEN_GREATER_EQ"

definition numeric_function_names :: "string list" where
  "numeric_function_names =
     [''childcount'', ''childfilecount'', ''childfoldercount'', ''depth'', ''dm'',
      ''datemodified'', ''parents'', ''size'']"

definition word_function_names :: "string list" where
  "word_function_names = [''contenttype'', ''ext'', ''parent'']"

definition field_argument :: "string \<Rightarrow> argument_kind" where
  "field_argument name =
     (if name \<in> set (map fst supported_modifiers) then Modifier_Argument
      else if name \<in> set numeric_function_names then Numeric_Argument
      else if name \<in> set word_function_names then Word_Argument
      else No_Argument)"

text \<open>
  The streams in which a loop of the parser reads a closing bracket when no bracket is
  open: \<open>unmatched_close lx a d\<close> says so for a stream \<open>lx\<close> whose first tokens are read as
  the argument \<open>a\<close>, at bracket depth \<open>d\<close>. The token that is read as an argument is not
  read as a bracket, except the open bracket after a modifier, which opens a bracket
  that the next closing bracket of the loop closes. On a stream without field tokens
  this is \<open>excess_close\<close>.
\<close>

primrec unmatched_close :: "FsearchQueryLexer \<Rightarrow> argument_kind \<Rightarrow> nat \<Rightarrow> bool" where
  "unmatched_close [] = (\<lambda>a d. False)"
| "unmatched_close (token # rest) =
     (\<lambda>a d. case a of
        Word_Argument \<Rightarrow> unmatched_close rest No_Argument d
      | Numeric_Argument \<Rightarrow>
          unmatched_close rest
            (if comparison_token (fst token) then Word_Argument else No_Argument) d
      | Modifier_Argument \<Rightarrow>
          (if fst token = FSEARCH_QUERY_TOKEN_BRACKET_OPEN
           then unmatched_close rest No_Argument (Suc d)
           else if fst token = FSEARCH_QUERY_TOKEN_FIELD
           then unmatched_close rest (field_argument (snd token)) d
           else unmatched_close rest No_Argument d)
      | No_Argument \<Rightarrow>
          (if fst token = FSEARCH_QUERY_TOKEN_BRACKET_OPEN
           then unmatched_close rest No_Argument (Suc d)
           else if fst token = FSEARCH_QUERY_TOKEN_BRACKET_CLOSE
           then d = 0 \<or> unmatched_close rest No_Argument (d - 1)
           else if fst token = FSEARCH_QUERY_TOKEN_FIELD
           then unmatched_close rest (field_argument (snd token)) d
           else unmatched_close rest No_Argument d))"

text \<open>A stream without the end-of-stream token: the lexer gives it past the end only.\<close>

definition eos_free :: "FsearchQueryLexer \<Rightarrow> bool" where
  "eos_free lx \<longleftrightarrow> list_all (\<lambda>token. fst token \<noteq> FSEARCH_QUERY_TOKEN_EOS) lx"

text \<open>
  The notions of the proof about unmatched closing brackets. The expansion of a macro
  returns, and leaves the stream and the operator stack as they were; a token of the
  stream that a loop may read; the state of a call that goes on to an unmatched closing
  bracket; what a call inside the top level leaves of such a state; and the property
  that is shown of every call by induction on \<open>scan_measure\<close>.
\<close>

definition macro_returns :: "externals \<Rightarrow> FsearchFilter list \<Rightarrow> string \<Rightarrow> bool" where
  "macro_returns ext filters name \<longleftrightarrow>
     (\<forall>parse_ctx flags.
        macro_filters parse_ctx = filters
        \<and> FSEARCH_QUERY_TOKEN_NONE \<notin> set (operator_stack parse_ctx) \<longrightarrow>
        (\<exists>res ctx'. parse_filter_macros ext parse_ctx name flags = Some (Inr (res, ctx'))
           \<and> lexer ctx' = lexer parse_ctx \<and> operator_stack ctx' = operator_stack parse_ctx
           \<and> macro_filters ctx' = filters))"

definition loop_token ::
  "externals \<Rightarrow> FsearchFilter list \<Rightarrow> FsearchQueryToken \<times> string \<Rightarrow> bool" where
  "loop_token ext filters token \<longleftrightarrow>
     fst token \<noteq> FSEARCH_QUERY_TOKEN_EOS
     \<and> (fst token = FSEARCH_QUERY_TOKEN_FIELD \<and> field_argument (snd token) \<noteq> No_Argument \<longrightarrow>
          find_filter filters (snd token) 0 = None)
     \<and> (fst token = FSEARCH_QUERY_TOKEN_FIELD \<or> fst token = FSEARCH_QUERY_TOKEN_FIELD_EMPTY \<longrightarrow>
          macro_returns ext filters (snd token))"

definition scan_state ::
  "externals \<Rightarrow> FsearchQueryParseContext \<Rightarrow> argument_kind \<Rightarrow> nat \<Rightarrow> bool" where
  "scan_state ext parse_ctx a d \<longleftrightarrow>
     unmatched_close (lexer parse_ctx) a d
     \<and> list_all (loop_token ext (macro_filters parse_ctx)) (lexer parse_ctx)
     \<and> bracket_state parse_ctx d
     \<and> length (lexer parse_ctx) < 2 ^ 32"

definition returns_scanning :: "externals \<Rightarrow> parser_call \<Rightarrow> nat \<Rightarrow> bool" where
  "returns_scanning ext call d \<longleftrightarrow>
     (\<exists>res ctx'. parser ext call = Some (Inr (res, ctx'))
        \<and> scan_state ext ctx' No_Argument d
        \<and> length (lexer ctx') \<le> length (lexer (call_context call)))"

primrec call_scans :: "externals \<Rightarrow> parser_call \<Rightarrow> bool" where
  "call_scans ext (Call_parse_expression_loop parse_ctx in_open_bracket flags res no nc) =
     (\<forall>d k. no = nc + of_nat k \<and> scan_state ext parse_ctx No_Argument (d + k)
            \<and> (if in_open_bracket
                then 1 \<le> k \<and> unat nc + k + length (lexer parse_ctx) < 2 ^ 32
                else d = 0) \<longrightarrow>
        (if in_open_bracket
         then returns_scanning ext
                (Call_parse_expression_loop parse_ctx in_open_bracket flags res no nc) d
         else (\<exists>ctx'. parser ext
                 (Call_parse_expression_loop parse_ctx in_open_bracket flags res no nc)
                   = Some (Inr ([NodeMatchNothing], ctx')))))"
| "call_scans ext (Call_parse_field parse_ctx name is_empty_field flags) =
     (\<forall>d. scan_state ext parse_ctx
              (if is_empty_field then No_Argument else field_argument name) d
          \<and> loop_token ext (macro_filters parse_ctx)
               (if is_empty_field then FSEARCH_QUERY_TOKEN_FIELD_EMPTY
                else FSEARCH_QUERY_TOKEN_FIELD, name) \<longrightarrow>
        returns_scanning ext (Call_parse_field parse_ctx name is_empty_field flags) d)"
| "call_scans ext (Call_parse_modifier parse_ctx is_empty_field flags) =
     (\<forall>d. scan_state ext parse_ctx
              (if is_empty_field then No_Argument else Modifier_Argument) d \<longrightarrow>
        returns_scanning ext (Call_parse_modifier parse_ctx is_empty_field flags) d)"
| "call_scans ext (Call_parse_filter_macros parse_ctx name flags) = True"

definition scan_measure :: "parser_call \<Rightarrow> nat" where
  "scan_measure call = 3 * length (lexer (call_context call)) + call_rank call"

text \<open>
  The notions of the proof that no call reaches \<^verbatim>\<open>g_assert_not_reached\<close>: a state in which
  the operator stack holds an open bracket for each bracket that the loops have open,
  unless the stream is at its end; and a call that returns such a state.
\<close>

definition safe_state :: "externals \<Rightarrow> FsearchQueryParseContext \<Rightarrow> nat \<Rightarrow> bool" where
  "safe_state ext parse_ctx d \<longleftrightarrow>
     eos_free (lexer parse_ctx)
     \<and> list_all (\<lambda>f. eos_free (fsearch_query_lexer_new ext (query f))) (macro_filters parse_ctx)
     \<and> (lexer parse_ctx = [] \<or> bracket_state parse_ctx d)"

definition returns_safely :: "externals \<Rightarrow> parser_call \<Rightarrow> nat \<Rightarrow> bool" where
  "returns_safely ext call d \<longleftrightarrow>
     (\<exists>res ctx'. parser ext call = Some (Inr (res, ctx'))
        \<and> safe_state ext ctx' d \<and> context_after ctx' (call_context call))"

primrec call_safe :: "externals \<Rightarrow> parser_call \<Rightarrow> bool" where
  "call_safe ext (Call_parse_expression_loop parse_ctx in_open_bracket flags res no nc) =
     (\<forall>d k. no = nc + of_nat k \<and> safe_state ext parse_ctx (d + k) \<longrightarrow>
        returns_safely ext
          (Call_parse_expression_loop parse_ctx in_open_bracket flags res no nc) d)"
| "call_safe ext (Call_parse_field parse_ctx name is_empty_field flags) =
     (\<forall>d. safe_state ext parse_ctx d \<longrightarrow>
        returns_safely ext (Call_parse_field parse_ctx name is_empty_field flags) d)"
| "call_safe ext (Call_parse_modifier parse_ctx is_empty_field flags) =
     (\<forall>d. safe_state ext parse_ctx d \<longrightarrow>
        returns_safely ext (Call_parse_modifier parse_ctx is_empty_field flags) d)"
| "call_safe ext (Call_parse_filter_macros parse_ctx name flags) =
     (\<forall>d. safe_state ext parse_ctx d \<longrightarrow>
        returns_safely ext (Call_parse_filter_macros parse_ctx name flags) d)"

section \<open>Properties\<close>

subsection \<open>The equations of the four functions\<close>

text \<open>
  The defining equation of the parser, read at each of its calls and at each token of
  the loop.
\<close>

lemma parse_expression_loop_eos:
  "lexer parse_ctx = [] \<Longrightarrow>
   parse_expression_loop ext parse_ctx in_open_bracket flags res no nc =
     Some (Inr (pop_remaining_operators (operator_stack parse_ctx) res,
                parse_ctx\<lparr>operator_stack := []\<rparr>))"
  unfolding parse_expression_loop_def
  by (subst parser.simps) (simp add: Let_def)

lemma parse_expression_loop_not:
  "lexer parse_ctx = (FSEARCH_QUERY_TOKEN_NOT, v) # rest \<Longrightarrow>
   parse_expression_loop ext parse_ctx in_open_bracket flags res no nc =
     (case switch_not (parse_ctx\<lparr>lexer := rest\<rparr>) (last_token parse_ctx) of
        (to_append, ctx1, skip) \<Rightarrow>
          (case append_parsed ctx1 (last_token parse_ctx) FSEARCH_QUERY_TOKEN_NOT skip to_append res of
             (res', ctx2) \<Rightarrow> parse_expression_loop ext ctx2 in_open_bracket flags res' no nc))"
  unfolding parse_expression_loop_def
  by (subst parser.simps) (simp add: Let_def)

lemma parse_expression_loop_and_or:
  "lexer parse_ctx = (token, v) # rest \<Longrightarrow>
   token = FSEARCH_QUERY_TOKEN_AND \<or> token = FSEARCH_QUERY_TOKEN_OR \<Longrightarrow>
   parse_expression_loop ext parse_ctx in_open_bracket flags res no nc =
     (case switch_and_or (parse_ctx\<lparr>lexer := rest\<rparr>) token of
        (to_append, ctx1) \<Rightarrow>
          (case append_parsed ctx1 (last_token parse_ctx) token False to_append res of
             (res', ctx2) \<Rightarrow> parse_expression_loop ext ctx2 in_open_bracket flags res' no nc))"
  unfolding parse_expression_loop_def
  by (subst parser.simps) (auto simp: Let_def)

lemma parse_expression_loop_bracket_open:
  "lexer parse_ctx = (FSEARCH_QUERY_TOKEN_BRACKET_OPEN, v) # rest \<Longrightarrow>
   parse_expression_loop ext parse_ctx in_open_bracket flags res no nc =
     (case switch_bracket_open (parse_ctx\<lparr>lexer := rest\<rparr>) of
        (to_append, ctx1) \<Rightarrow>
          (case append_parsed ctx1 (last_token parse_ctx) FSEARCH_QUERY_TOKEN_BRACKET_OPEN False to_append res of
             (res', ctx2) \<Rightarrow> parse_expression_loop ext ctx2 in_open_bracket flags res' (no + 1) nc))"
  unfolding parse_expression_loop_def
  by (subst parser.simps) (simp add: Let_def)

lemma parse_expression_loop_bracket_close:
  "lexer parse_ctx = (FSEARCH_QUERY_TOKEN_BRACKET_CLOSE, v) # rest \<Longrightarrow>
   parse_expression_loop ext parse_ctx in_open_bracket flags res no nc =
     (if no > nc
      then (case parse_close_bracket (parse_ctx\<lparr>lexer := rest\<rparr>) of
              Inl e \<Rightarrow> Some (Inl e)
            | Inr (to_append, ctx1) \<Rightarrow>
                (if in_open_bracket \<and> nc + 1 = no
                 then Some (Inr (res @ to_append, ctx1))
                 else (case append_parsed ctx1 (last_token parse_ctx) FSEARCH_QUERY_TOKEN_BRACKET_CLOSE False
                              to_append res of
                         (res', ctx2) \<Rightarrow>
                           parse_expression_loop ext ctx2 in_open_bracket flags res' no (nc + 1))))
      else Some (Inr ([NodeMatchNothing], parse_ctx\<lparr>lexer := rest\<rparr>)))"
  unfolding parse_expression_loop_def
  by (subst parser.simps) (simp add: new_list_def Let_def)

lemma parse_expression_loop_word:
  "lexer parse_ctx = (FSEARCH_QUERY_TOKEN_WORD, w) # rest \<Longrightarrow>
   parse_expression_loop ext parse_ctx in_open_bracket flags res no nc =
     (case append_parsed (parse_ctx\<lparr>lexer := rest\<rparr>) (last_token parse_ctx) FSEARCH_QUERY_TOKEN_WORD False
             [NodeWord w flags] res of
        (res', ctx2) \<Rightarrow> parse_expression_loop ext ctx2 in_open_bracket flags res' no nc)"
  unfolding parse_expression_loop_def
  by (subst parser.simps) (simp add: parse_word_def new_list_def Let_def)

lemma parse_expression_loop_field:
  "lexer parse_ctx = (token, name) # rest \<Longrightarrow>
   token = FSEARCH_QUERY_TOKEN_FIELD \<or> token = FSEARCH_QUERY_TOKEN_FIELD_EMPTY \<Longrightarrow>
   parse_expression_loop ext parse_ctx in_open_bracket flags res no nc =
     Option.bind (parse_field ext (parse_ctx\<lparr>lexer := rest\<rparr>) name (token = FSEARCH_QUERY_TOKEN_FIELD_EMPTY) flags)
       (\<lambda>r. case r of
              Inl e \<Rightarrow> Some (Inl e)
            | Inr (to_append, ctx1) \<Rightarrow>
                (case append_parsed ctx1 (last_token parse_ctx) token False to_append res of
                   (res', ctx2) \<Rightarrow> parse_expression_loop ext ctx2 in_open_bracket flags res' no nc))"
  unfolding parse_expression_loop_def parse_field_def
  by (subst parser.simps) (auto simp: Let_def)

lemma parse_expression_loop_other:
  "lexer parse_ctx = (token, v) # rest \<Longrightarrow>
   token \<in> {FSEARCH_QUERY_TOKEN_NONE, FSEARCH_QUERY_TOKEN_EQUAL, FSEARCH_QUERY_TOKEN_SMALLER,
     FSEARCH_QUERY_TOKEN_SMALLER_EQ, FSEARCH_QUERY_TOKEN_GREATER, FSEARCH_QUERY_TOKEN_GREATER_EQ} \<Longrightarrow>
   parse_expression_loop ext parse_ctx in_open_bracket flags res no nc =
     parse_expression_loop ext (parse_ctx\<lparr>lexer := rest\<rparr>) in_open_bracket flags res no nc"
  unfolding parse_expression_loop_def
  by (subst parser.simps) (auto simp: Let_def)

lemma parse_expression_loop_eos_token:
  "lexer parse_ctx = (FSEARCH_QUERY_TOKEN_EOS, v) # rest \<Longrightarrow>
   parse_expression_loop ext parse_ctx in_open_bracket flags res no nc =
     Some (Inr (pop_remaining_operators (operator_stack parse_ctx) res,
                parse_ctx\<lparr>lexer := rest, operator_stack := []\<rparr>))"
  unfolding parse_expression_loop_def
  by (subst parser.simps) (simp add: Let_def)

lemma parse_field_unfold:
  "parse_field ext parse_ctx field_name is_empty_field flags =
     Option.bind (parse_filter_macros ext parse_ctx field_name flags)
       (\<lambda>r. case r of
              Inl e \<Rightarrow> Some (Inl e)
            | Inr (res, ctx1) \<Rightarrow>
                (if res = []
                 then (case find (\<lambda>modifier. fst modifier = field_name) supported_modifiers of
                         Some (name, flag, flag_operation) \<Rightarrow>
                           parse_modifier ext ctx1 is_empty_field
                             (apply_flag_operation flag_operation flag flags)
                       | None \<Rightarrow>
                           (case find (\<lambda>function. fst function = field_name) supported_functions of
                              Some (name, function_parser) \<Rightarrow>
                                Some (Inr (function_parser ext ctx1 is_empty_field flags))
                            | None \<Rightarrow> Some (Inr ([NodeMatchNothing], ctx1))))
                 else Some (Inr (res, ctx1))))"
  unfolding parse_field_def parse_filter_macros_def parse_modifier_def
  by (subst parser.simps) (simp add: new_list_def Let_def cong: option.case_cong sum.case_cong if_cong)

lemma parse_modifier_unfold:
  "parse_modifier ext parse_ctx is_empty_field flags =
     (if is_empty_field then Some (Inr ([NodeMatchEverything flags], parse_ctx))
      else (case fsearch_query_lexer_get_next_token (lexer parse_ctx) of
              ((token, token_value), lx) \<Rightarrow>
                (let ctx0 = parse_ctx\<lparr>lexer := lx\<rparr>
                 in if token = FSEARCH_QUERY_TOKEN_WORD
                    then Some (Inr ([NodeWord token_value flags], ctx0))
                    else if token = FSEARCH_QUERY_TOKEN_BRACKET_OPEN
                    then (case parse_open_bracket ctx0 of
                            (res, ctx1) \<Rightarrow>
                              Option.bind (fsearch_query_parser_parse_expression ext ctx1 True flags)
                                (\<lambda>r. case r of
                                       Inl e \<Rightarrow> Some (Inl e)
                                     | Inr (res', ctx2) \<Rightarrow> Some (Inr (res @ res', ctx2))))
                    else if token = FSEARCH_QUERY_TOKEN_FIELD
                    then parse_field ext ctx0 token_value False flags
                    else if token = FSEARCH_QUERY_TOKEN_FIELD_EMPTY
                    then parse_field ext ctx0 token_value True flags
                    else Some (Inr ([NodeMatchNothing], ctx0)))))"
  unfolding parse_field_def parse_modifier_def fsearch_query_parser_parse_expression_def parse_expression_loop_def
  by (subst parser.simps) (simp add: new_list_def parse_word_def Let_def cong: option.case_cong sum.case_cong if_cong prod.case_cong)

lemma parse_filter_macros_unfold:
  "parse_filter_macros ext parse_ctx name flags =
     (case find_filter (macro_filters parse_ctx) name 0 of
        None \<Rightarrow> Some (Inr ([], parse_ctx))
      | Some (i, filt) \<Rightarrow>
          (if i \<in> set (macro_stack parse_ctx) then Some (Inr ([], parse_ctx))
           else if fsearch_string_is_empty (query filt) then Some (Inr ([], parse_ctx))
           else (let flags1 = (if QUERY_FLAG_SEARCH_IN_PATH \<in> filter_flags filt
                               then insert QUERY_FLAG_SEARCH_IN_PATH flags else flags);
                     flags2 = (if QUERY_FLAG_MATCH_CASE \<in> filter_flags filt
                               then insert QUERY_FLAG_MATCH_CASE flags1 else flags1);
                     flags3 = (if QUERY_FLAG_REGEX \<in> filter_flags filt
                               then insert QUERY_FLAG_REGEX flags2 else flags2);
                     ctx1 = parse_ctx\<lparr>macro_stack := macro_stack parse_ctx @ [i],
                                      lexer := fsearch_query_lexer_new ext (query filt),
                                      operator_stack := []\<rparr>
                 in Option.bind (fsearch_query_parser_parse_expression ext ctx1 False flags3)
                      (\<lambda>r. case r of
                             Inl e \<Rightarrow> Some (Inl e)
                           | Inr (res, ctx2) \<Rightarrow>
                               Some (Inr (res,
                                 ctx2\<lparr>operator_stack := operator_stack parse_ctx,
                                      lexer := lexer parse_ctx,
                                      macro_stack := butlast (macro_stack ctx2)\<rparr>))))))"
  unfolding parse_filter_macros_def fsearch_query_parser_parse_expression_def parse_expression_loop_def
  by (subst parser.simps) (simp add: Let_def cong: option.case_cong sum.case_cong if_cong prod.case_cong)

text \<open>The facts that evaluate the parser on a given token stream.\<close>

lemmas parser_eval =
  fsearch_query_parser_parse_expression_def initial_context_def
  parse_expression_loop_eos parse_expression_loop_not parse_expression_loop_and_or
  parse_expression_loop_bracket_open parse_expression_loop_bracket_close
  parse_expression_loop_word parse_expression_loop_field parse_expression_loop_other
  parse_field_unfold parse_modifier_unfold parse_filter_macros_unfold
  switch_not_def switch_and_or_def switch_bracket_open_def append_parsed_def
  new_list_def append_to_list_if_nonnull_def get_implicit_and_if_necessary_def
  parse_operator_def push_query_token_def consume_consecutive_not_token_def
  is_operator_token_followed_by_operand_def is_binary_operator_token_def
  parse_close_bracket_def parse_open_bracket_def apply_flag_operation_def
  supported_modifiers_def supported_functions_def fsearch_string_is_empty_def expect_word_def

subsection \<open>The numeric range parser\<close>

lemma split_at_dotdot_suffix:
  "split_at_dotdot a = None \<Longrightarrow> a \<noteq> [] \<Longrightarrow> last a \<noteq> CHR ''.'' \<Longrightarrow>
   split_at_dotdot (a @ ''..'') = Some (a, [])"
proof (induction a rule: split_at_dotdot.induct)
  case 1
  then show ?case by simp
next
  case (2 c)
  then show ?case by simp
next
  case (3 c d r)
  then show ?case by (auto split: if_splits option.splits)
qed

lemma parse_integer_0: "parse_integer ''0'' = Some (0, 0)"
  by (simp add: parse_integer_def strtoll_10_def c_isspace_def c_isdigit_def)

lemma parse_integer_max: "parse_integer ''2147483647'' = Some (INT32_MAX, INT32_MAX)"
  by (simp add: parse_integer_def strtoll_10_def c_isspace_def c_isdigit_def INT32_MAX_def)

lemma range_node_or_nothing:
  "parse_numeric_field_with_optional_range parse_value_func new_node_func string flags
     = NodeMatchNothing
   \<or> (\<exists>start end comp.
         parse_numeric_field_with_optional_range parse_value_func new_node_func string flags
           = new_node_func flags start end comp
         \<and> (start = end \<longleftrightarrow> comp = FSEARCH_QUERY_NODE_COMPARISON_EQUAL))"
proof (cases "g_strsplit_dotdot_2 string")
  case Nil
  then show ?thesis by (simp add: parse_numeric_field_with_optional_range_def)
next
  case (Cons e0 es)
  define first where
    "first = (if fsearch_string_is_empty e0
              then Some (0, 0, FSEARCH_QUERY_NODE_COMPARISON_RANGE)
              else (case parse_value_func e0 of
                      Some (s, e) \<Rightarrow> Some (s, e, FSEARCH_QUERY_NODE_COMPARISON_RANGE)
                    | None \<Rightarrow> None))"
  show ?thesis
  proof (cases first)
    case None
    with Cons show ?thesis
      by (simp add: parse_numeric_field_with_optional_range_def first_def)
  next
    case (Some triple)
    obtain start end0 comp0 where triple: "triple = (start, end0, comp0)"
      by (cases triple) auto
    have comp0: "comp0 = FSEARCH_QUERY_NODE_COMPARISON_RANGE"
      using Some triple by (auto simp: first_def split: if_splits option.splits)
    define second where
      "second = (case es of
                   [] \<Rightarrow> Some (end0, comp0)
                 | e1 # _ \<Rightarrow>
                     (if fsearch_string_is_empty e1
                      then Some (INT32_MAX, FSEARCH_QUERY_NODE_COMPARISON_GREATER_EQ)
                      else (case parse_value_func e1 of
                              Some (_, e) \<Rightarrow> Some (e, FSEARCH_QUERY_NODE_COMPARISON_RANGE)
                            | None \<Rightarrow> None)))"
    show ?thesis
    proof (cases second)
      case None
      with Cons Some triple show ?thesis
        by (simp add: parse_numeric_field_with_optional_range_def
              first_def [symmetric] second_def [symmetric])
    next
      case (Some pair)
      obtain end1 comp1 where pair: "pair = (end1, comp1)"
        by (cases pair) auto
      have comp1: "comp1 \<noteq> FSEARCH_QUERY_NODE_COMPARISON_EQUAL"
        using Some pair comp0
        by (auto simp: second_def split: list.splits if_splits option.splits)
      have "parse_numeric_field_with_optional_range parse_value_func new_node_func string flags
            = new_node_func flags start end1
                (if start = end1 then FSEARCH_QUERY_NODE_COMPARISON_EQUAL else comp1)"
        using Cons \<open>first = Some triple\<close> triple Some pair
        by (simp add: parse_numeric_field_with_optional_range_def
              first_def [symmetric] second_def [symmetric])
      moreover have "start = end1 \<longleftrightarrow>
          (if start = end1 then FSEARCH_QUERY_NODE_COMPARISON_EQUAL else comp1)
            = FSEARCH_QUERY_NODE_COMPARISON_EQUAL"
        using comp1 by simp
      ultimately show ?thesis by blast
    qed
  qed
qed

lemma range_fails_iff:
  assumes nn: "\<forall>f s e c. new_node_func f s e c \<noteq> NodeMatchNothing"
  shows "parse_numeric_field_with_optional_range parse_value_func new_node_func string flags
           = NodeMatchNothing
         \<longleftrightarrow> string = []
           \<or> (case split_at_dotdot string of
                None \<Rightarrow> parse_value_func string = None
              | Some (l, r) \<Rightarrow> (l \<noteq> [] \<and> parse_value_func l = None)
                             \<or> (r \<noteq> [] \<and> parse_value_func r = None))"
proof (cases "string = []")
  case True
  then show ?thesis
    by (simp add: parse_numeric_field_with_optional_range_def g_strsplit_dotdot_2_def)
next
  case False
  show ?thesis
  proof (cases "split_at_dotdot string")
    case None
    with False nn show ?thesis
      by (cases "parse_value_func string")
         (auto simp: parse_numeric_field_with_optional_range_def g_strsplit_dotdot_2_def
            fsearch_string_is_empty_def)
  next
    case (Some p)
    obtain l r where p: "p = (l, r)" by (cases p)
    from False Some p nn show ?thesis
      by (cases "parse_value_func l"; cases "parse_value_func r")
         (auto simp: parse_numeric_field_with_optional_range_def g_strsplit_dotdot_2_def
            fsearch_string_is_empty_def)
  qed
qed

lemma parse_integer_5: "parse_integer ''5'' = Some (5, 5)"
  by (simp add: parse_integer_def strtoll_10_def c_isspace_def c_isdigit_def)

lemma parse_integer_3: "parse_integer ''3'' = Some (3, 3)"
  by (simp add: parse_integer_def strtoll_10_def c_isspace_def c_isdigit_def)

lemma parse_integer_x: "parse_integer ''x'' = None"
  by (simp add: parse_integer_def strtoll_10_def c_isspace_def c_isdigit_def)

text \<open>
  Claim C4, as the code has it. The claim says that the word \<^verbatim>\<open>..\<close> alone, whose two
  parts are both empty, fails and gives the match-nothing node. The code has no such
  case: an empty left part sets the start to 0, an empty right part sets the end to
  \<^verbatim>\<open>INT32_MAX\<close> and the comparison to greater-or-equal, and the node is built. For every
  value parser, every node constructor and all flags, the word \<^verbatim>\<open>..\<close> gives the node
  \<open>(flags, 0, INT32_MAX, GREATER_EQ)\<close>.

  The range parser fails in these cases and in no other: the word is empty, or a part
  of it that is not empty is rejected by the value parser, where the parts are the two
  sides of the first \<^verbatim>\<open>..\<close> and a word without \<^verbatim>\<open>..\<close> is its only part. This is stated
  for a node constructor that never returns the match-nothing node itself, as those of
  the numeric fields do, so that the match-nothing node is the sign of a failure.
\<close>

theorem range_dotdot_alone:
  "parse_numeric_field_with_optional_range parse_value_func new_node_func ''..'' flags
     = new_node_func flags 0 INT32_MAX FSEARCH_QUERY_NODE_COMPARISON_GREATER_EQ
   \<and> ((\<forall>f s e c. new_node_func f s e c \<noteq> NodeMatchNothing) \<longrightarrow>
        (parse_numeric_field_with_optional_range parse_value_func new_node_func string flags
           = NodeMatchNothing
         \<longleftrightarrow> string = []
           \<or> (case split_at_dotdot string of
                None \<Rightarrow> parse_value_func string = None
              | Some (l, r) \<Rightarrow> (l \<noteq> [] \<and> parse_value_func l = None)
                             \<or> (r \<noteq> [] \<and> parse_value_func r = None))))"
proof (intro conjI impI)
  show "parse_numeric_field_with_optional_range parse_value_func new_node_func ''..'' flags
     = new_node_func flags 0 INT32_MAX FSEARCH_QUERY_NODE_COMPARISON_GREATER_EQ"
    by (simp add: parse_numeric_field_with_optional_range_def g_strsplit_dotdot_2_def
        fsearch_string_is_empty_def INT32_MAX_def)
next
  assume "\<forall>f s e c. new_node_func f s e c \<noteq> NodeMatchNothing"
  then show "parse_numeric_field_with_optional_range parse_value_func new_node_func string flags
           = NodeMatchNothing
         \<longleftrightarrow> string = []
           \<or> (case split_at_dotdot string of
                None \<Rightarrow> parse_value_func string = None
              | Some (l, r) \<Rightarrow> (l \<noteq> [] \<and> parse_value_func l = None)
                             \<or> (r \<noteq> [] \<and> parse_value_func r = None))"
    by (rule range_fails_iff)
qed

text \<open>
  The depth field with the integer parser: the words \<^verbatim>\<open>5..3\<close> and \<^verbatim>\<open>..\<close> give a node, and
  the words \<^verbatim>\<open>5..x\<close> and \<^verbatim>\<open>x\<close> and the empty word fail.
\<close>

theorem range_dotdot_alone_witness:
  "(\<forall>f s e c. NodeDepth f s e c \<noteq> NodeMatchNothing)
   \<and> parse_numeric_field_with_optional_range parse_integer NodeDepth ''5..3'' {} \<noteq> NodeMatchNothing
   \<and> parse_numeric_field_with_optional_range parse_integer NodeDepth ''..'' {} \<noteq> NodeMatchNothing
   \<and> parse_numeric_field_with_optional_range parse_integer NodeDepth ''5..x'' {} = NodeMatchNothing
   \<and> parse_numeric_field_with_optional_range parse_integer NodeDepth ''x'' {} = NodeMatchNothing
   \<and> parse_numeric_field_with_optional_range parse_integer NodeDepth [] {} = NodeMatchNothing"
  using range_dotdot_alone [of parse_integer NodeDepth "{}" "''5..3''"]
        range_dotdot_alone [of parse_integer NodeDepth "{}" "''..''"]
        range_dotdot_alone [of parse_integer NodeDepth "{}" "''5..x''"]
        range_dotdot_alone [of parse_integer NodeDepth "{}" "''x''"]
        range_dotdot_alone [of parse_integer NodeDepth "{}" "[]"]
  by (simp add: parse_integer_5 parse_integer_3 parse_integer_x)

text \<open>
  The claim C4 as it is written fails: for the depth field with the integer parser, the
  word \<^verbatim>\<open>..\<close> does not give the match-nothing node.
\<close>

theorem range_dotdot_alone_not_nothing:
  "parse_numeric_field_with_optional_range parse_integer NodeDepth ''..'' {}
   \<noteq> NodeMatchNothing"
  by (simp add: parse_numeric_field_with_optional_range_def g_strsplit_dotdot_2_def
        fsearch_string_is_empty_def INT32_MAX_def)

text \<open>
  Claim C10. Whenever the numeric range parser builds a node, the node's comparison is
  \<^verbatim>\<open>EQUAL\<close> exactly when its start and end are equal, whatever the shape of the word.
  In particular a word \<^verbatim>\<open>..B\<close> whose end parses to 0 gives \<open>(flags, 0, 0, EQUAL)\<close> and not
  a range, and a word \<^verbatim>\<open>A..\<close> whose start parses to \<^verbatim>\<open>INT32_MAX\<close> gives
  \<open>(flags, INT32_MAX, INT32_MAX, EQUAL)\<close> and not a greater-or-equal node. (The word
  \<^verbatim>\<open>A..\<close> is cut after \<^verbatim>\<open>A\<close> when \<^verbatim>\<open>A\<close> holds no \<^verbatim>\<open>..\<close> and does not end with a dot.)
\<close>

theorem range_equal_normalisation:
  "(parse_numeric_field_with_optional_range parse_value_func new_node_func string flags
      = NodeMatchNothing
    \<or> (\<exists>start end comp.
          parse_numeric_field_with_optional_range parse_value_func new_node_func string flags
            = new_node_func flags start end comp
          \<and> (start = end \<longleftrightarrow> comp = FSEARCH_QUERY_NODE_COMPARISON_EQUAL)))
   \<and> (b \<noteq> [] \<and> parse_value_func b = Some (x, 0) \<longrightarrow>
        parse_numeric_field_with_optional_range parse_value_func new_node_func (''..'' @ b) flags
          = new_node_func flags 0 0 FSEARCH_QUERY_NODE_COMPARISON_EQUAL)
   \<and> (a \<noteq> [] \<and> split_at_dotdot a = None \<and> last a \<noteq> CHR ''.''
        \<and> parse_value_func a = Some (INT32_MAX, y) \<longrightarrow>
        parse_numeric_field_with_optional_range parse_value_func new_node_func (a @ ''..'') flags
          = new_node_func flags INT32_MAX INT32_MAX FSEARCH_QUERY_NODE_COMPARISON_EQUAL)"
proof (intro conjI impI)
  show "parse_numeric_field_with_optional_range parse_value_func new_node_func string flags
      = NodeMatchNothing
    \<or> (\<exists>start end comp.
          parse_numeric_field_with_optional_range parse_value_func new_node_func string flags
            = new_node_func flags start end comp
          \<and> (start = end \<longleftrightarrow> comp = FSEARCH_QUERY_NODE_COMPARISON_EQUAL))"
    by (rule range_node_or_nothing)
next
  assume "b \<noteq> [] \<and> parse_value_func b = Some (x, 0)"
  then show "parse_numeric_field_with_optional_range parse_value_func new_node_func
               (''..'' @ b) flags
             = new_node_func flags 0 0 FSEARCH_QUERY_NODE_COMPARISON_EQUAL"
    by (simp add: parse_numeric_field_with_optional_range_def g_strsplit_dotdot_2_def
          fsearch_string_is_empty_def)
next
  assume a: "a \<noteq> [] \<and> split_at_dotdot a = None \<and> last a \<noteq> CHR ''.''
        \<and> parse_value_func a = Some (INT32_MAX, y)"
  then have "split_at_dotdot (a @ ''..'') = Some (a, [])"
    using split_at_dotdot_suffix by blast
  with a show "parse_numeric_field_with_optional_range parse_value_func new_node_func
                 (a @ ''..'') flags
               = new_node_func flags INT32_MAX INT32_MAX FSEARCH_QUERY_NODE_COMPARISON_EQUAL"
    by (simp add: parse_numeric_field_with_optional_range_def g_strsplit_dotdot_2_def
          fsearch_string_is_empty_def)
qed

text \<open>The depth field at the words \<^verbatim>\<open>..0\<close> and \<^verbatim>\<open>2147483647..\<close>.\<close>

theorem range_equal_normalisation_witness:
  "parse_integer ''0'' = Some (0, 0)
   \<and> parse_integer ''2147483647'' = Some (INT32_MAX, INT32_MAX)
   \<and> parse_numeric_field_with_optional_range parse_integer NodeDepth ''..0'' {}
     = NodeDepth {} 0 0 FSEARCH_QUERY_NODE_COMPARISON_EQUAL
   \<and> parse_numeric_field_with_optional_range parse_integer NodeDepth ''2147483647..'' {}
     = NodeDepth {} INT32_MAX INT32_MAX FSEARCH_QUERY_NODE_COMPARISON_EQUAL"
  using range_equal_normalisation
    [of parse_integer NodeDepth "[]" "{}" "''0''" 0 "''2147483647''" INT32_MAX]
  by (simp add: parse_integer_0 parse_integer_max)

subsection \<open>The field \<^verbatim>\<open>empty\<close>\<close>

text \<open>
  Claim C9, as the code has it. Where no macro has the name \<^verbatim>\<open>empty\<close>, the field emits
  exactly one node, \<open>ChildCount (flags, 0, 0, EQUAL)\<close>, whatever tokens follow and
  whether the field is empty or not, and it leaves the context as it found it: it
  consumes no token. So what follows \<^verbatim>\<open>empty:\<close> is not an argument that is dropped; it
  stays in the token stream and is parsed as the next construct of the expression.
\<close>

theorem empty_emits_childcount:
  "find_filter (macro_filters parse_ctx) ''empty'' 0 = None \<Longrightarrow>
   parse_field ext parse_ctx ''empty'' is_empty_field flags =
     Some (Inr ([NodeChildCount flags 0 0 FSEARCH_QUERY_NODE_COMPARISON_EQUAL], parse_ctx))"
  by (simp add: parse_field_unfold parse_filter_macros_unfold supported_modifiers_def
        supported_functions_def parse_function_empty_def new_list_def)

theorem empty_emits_childcount_witness:
  "find_filter
     (macro_filters (initial_context [] [(FSEARCH_QUERY_TOKEN_WORD, ''foo'')])) ''empty'' 0 = None
   \<and> parse_field example_externals (initial_context [] [(FSEARCH_QUERY_TOKEN_WORD, ''foo'')])
       ''empty'' False {QUERY_FLAG_REGEX} =
     Some (Inr ([NodeChildCount {QUERY_FLAG_REGEX} 0 0 FSEARCH_QUERY_NODE_COMPARISON_EQUAL],
                initial_context [] [(FSEARCH_QUERY_TOKEN_WORD, ''foo'')]))"
  using empty_emits_childcount
    [of "initial_context [] [(FSEARCH_QUERY_TOKEN_WORD, ''foo'')]" example_externals False
        "{QUERY_FLAG_REGEX}"]
  by (simp add: initial_context_def)

text \<open>
  The claim C9 as it is written fails: in \<^verbatim>\<open>empty:foo\<close> the word \<^verbatim>\<open>foo\<close> is not ignored.
  It gives a word node of its own, joined to the child count by an implicit \<^verbatim>\<open>AND\<close>.
\<close>

theorem empty_argument_is_parsed:
  "fsearch_query_parser_parse_expression example_externals
     (initial_context []
        [(FSEARCH_QUERY_TOKEN_FIELD, ''empty''), (FSEARCH_QUERY_TOKEN_WORD, ''foo'')]) False {}
   = Some (Inr ([NodeChildCount {} 0 0 FSEARCH_QUERY_NODE_COMPARISON_EQUAL, NodeWord ''foo'' {},
                 NodeOperator FSEARCH_QUERY_NODE_OPERATOR_AND],
                \<lparr>lexer = [], operator_stack = [], macro_stack = [],
                 macro_filters = [], last_token = FSEARCH_QUERY_TOKEN_WORD\<rparr>))"
  by (simp add: parser_eval parse_function_empty_def)

subsection \<open>Postfix validity and the operator stack\<close>

text \<open>
  Claim C1 does not hold of the code. The query \<^verbatim>\<open>a b (c)\<close> parses to the list
  \<^verbatim>\<open>a b AND c AND AND\<close>, on which the stack evaluator fails at the last \<^verbatim>\<open>AND\<close>. At
  the open bracket, \<^verbatim>\<open>parse_open_bracket\<close> adds the implicit \<^verbatim>\<open>AND\<close>, which pops and
  returns the \<^verbatim>\<open>AND\<close> of \<^verbatim>\<open>a b\<close>; as this list is not empty, the end of the loop body
  adds the implicit \<^verbatim>\<open>AND\<close> a second time, now above the open bracket. The case of
  \<^verbatim>\<open>NOT\<close> sets \<^verbatim>\<open>skip_implicit_and_check\<close> against this; the case of the open bracket
  does not.
\<close>

theorem bracket_after_implicit_and_malformed:
  "fsearch_query_parser_parse_expression example_externals
     (initial_context []
        [(FSEARCH_QUERY_TOKEN_WORD, ''a''), (FSEARCH_QUERY_TOKEN_WORD, ''b''),
         (FSEARCH_QUERY_TOKEN_BRACKET_OPEN, []), (FSEARCH_QUERY_TOKEN_WORD, ''c''),
         (FSEARCH_QUERY_TOKEN_BRACKET_CLOSE, [])]) False {}
   = Some (Inr ([NodeWord ''a'' {}, NodeWord ''b'' {},
                 NodeOperator FSEARCH_QUERY_NODE_OPERATOR_AND,
                 NodeWord ''c'' {},
                 NodeOperator FSEARCH_QUERY_NODE_OPERATOR_AND,
                 NodeOperator FSEARCH_QUERY_NODE_OPERATOR_AND],
                \<lparr>lexer = [], operator_stack = [], macro_stack = [], macro_filters = [],
                 last_token = FSEARCH_QUERY_TOKEN_BRACKET_CLOSE\<rparr>))
   \<and> postfix_stack_eval
        [NodeWord ''a'' {}, NodeWord ''b'' {},
         NodeOperator FSEARCH_QUERY_NODE_OPERATOR_AND,
         NodeWord ''c'' {},
         NodeOperator FSEARCH_QUERY_NODE_OPERATOR_AND,
         NodeOperator FSEARCH_QUERY_NODE_OPERATOR_AND] 0 = None
   \<and> \<not> well_formed_postfix
        [NodeWord ''a'' {}, NodeWord ''b'' {},
         NodeOperator FSEARCH_QUERY_NODE_OPERATOR_AND,
         NodeWord ''c'' {},
         NodeOperator FSEARCH_QUERY_NODE_OPERATOR_AND,
         NodeOperator FSEARCH_QUERY_NODE_OPERATOR_AND]"
  by (simp add: parser_eval well_formed_postfix_def)

text \<open>
  Claim C2 does not hold of the code. On the query \<^verbatim>\<open>a b )\<close> the parser meets a closing
  bracket without an open one and returns the match-nothing node at once; it does not
  reach the loop that empties the operator stack, and the implicit \<^verbatim>\<open>AND\<close> of \<^verbatim>\<open>a b\<close>
  is still on the stack.
\<close>

theorem abort_leaves_operator_stack:
  "fsearch_query_parser_parse_expression example_externals
     (initial_context []
        [(FSEARCH_QUERY_TOKEN_WORD, ''a''), (FSEARCH_QUERY_TOKEN_WORD, ''b''),
         (FSEARCH_QUERY_TOKEN_BRACKET_CLOSE, [])]) False {}
   = Some (Inr ([NodeMatchNothing],
                \<lparr>lexer = [], operator_stack = [FSEARCH_QUERY_TOKEN_AND], macro_stack = [],
                 macro_filters = [], last_token = FSEARCH_QUERY_TOKEN_WORD\<rparr>))"
  by (simp add: parser_eval)

subsection \<open>Implicit and explicit \<^verbatim>\<open>AND\<close>\<close>

text \<open>
  After an operand or a closing bracket, an explicit \<^verbatim>\<open>AND\<close> before a word leaves the
  parser in the state that the word alone leaves it in, whatever is on the operator
  stack: both pop the stack by the same rule and push one \<^verbatim>\<open>AND\<close>.
\<close>

lemma explicit_and_before_word:
  assumes "is_operand_token (last_token parse_ctx) \<or> last_token parse_ctx = FSEARCH_QUERY_TOKEN_BRACKET_CLOSE"
    and "lexer parse_ctx = (FSEARCH_QUERY_TOKEN_AND, v) # (FSEARCH_QUERY_TOKEN_WORD, b) # rest"
  shows "parse_expression_loop ext parse_ctx in_open_bracket flags res no nc =
         parse_expression_loop ext (parse_ctx\<lparr>lexer := (FSEARCH_QUERY_TOKEN_WORD, b) # rest\<rparr>)
           in_open_bracket flags res no nc"
proof -
  obtain popped stack where pop:
    "parse_operator_pop FSEARCH_QUERY_TOKEN_AND (operator_stack parse_ctx) [] = (popped, stack)"
    by (cases "parse_operator_pop FSEARCH_QUERY_TOKEN_AND (operator_stack parse_ctx) []") auto
  have not_and: "\<not> is_operand_token FSEARCH_QUERY_TOKEN_AND" by simp
  from assms pop show ?thesis
    by (cases parse_ctx; cases "popped = []")
       (auto simp: parse_expression_loop_and_or [where token = FSEARCH_QUERY_TOKEN_AND and v = v and rest = "(FSEARCH_QUERY_TOKEN_WORD, b) # rest"]
          parse_expression_loop_word [where w = b and rest = rest]
          switch_and_or_def append_parsed_def get_implicit_and_if_necessary_def parse_operator_def
          is_operator_token_followed_by_operand_def is_binary_operator_token_def push_query_token_def)
qed

text \<open>
  Claim C8. For all words \<^verbatim>\<open>a\<close> and \<^verbatim>\<open>b\<close>, the token streams \<^verbatim>\<open>a b\<close> and \<^verbatim>\<open>a AND b\<close> give
  the same result, also when more tokens follow; followed by nothing, both give the
  postfix list \<^verbatim>\<open>a b AND\<close>.
\<close>

theorem implicit_and_is_explicit_and:
  "fsearch_query_parser_parse_expression ext
     (initial_context filters ((FSEARCH_QUERY_TOKEN_WORD, a) # (FSEARCH_QUERY_TOKEN_WORD, b) # rest))
     False flags
   = fsearch_query_parser_parse_expression ext
     (initial_context filters
        ((FSEARCH_QUERY_TOKEN_WORD, a) # (FSEARCH_QUERY_TOKEN_AND, v) # (FSEARCH_QUERY_TOKEN_WORD, b) # rest))
     False flags
   \<and> fsearch_query_parser_parse_expression ext
     (initial_context filters [(FSEARCH_QUERY_TOKEN_WORD, a), (FSEARCH_QUERY_TOKEN_WORD, b)])
     False flags
   = Some (Inr ([NodeWord a flags, NodeWord b flags, NodeOperator FSEARCH_QUERY_NODE_OPERATOR_AND],
                \<lparr>lexer = [], operator_stack = [], macro_stack = [], macro_filters = filters,
                 last_token = FSEARCH_QUERY_TOKEN_WORD\<rparr>))"
proof
  show "fsearch_query_parser_parse_expression ext
     (initial_context filters ((FSEARCH_QUERY_TOKEN_WORD, a) # (FSEARCH_QUERY_TOKEN_WORD, b) # rest))
     False flags
   = fsearch_query_parser_parse_expression ext
     (initial_context filters
        ((FSEARCH_QUERY_TOKEN_WORD, a) # (FSEARCH_QUERY_TOKEN_AND, v) # (FSEARCH_QUERY_TOKEN_WORD, b) # rest))
     False flags"
    unfolding fsearch_query_parser_parse_expression_def initial_context_def
    by (simp add: parse_expression_loop_word [where w = a] append_parsed_def
          get_implicit_and_if_necessary_def explicit_and_before_word [where v = v and b = b and rest = rest])
next
  show "fsearch_query_parser_parse_expression ext
     (initial_context filters [(FSEARCH_QUERY_TOKEN_WORD, a), (FSEARCH_QUERY_TOKEN_WORD, b)])
     False flags
   = Some (Inr ([NodeWord a flags, NodeWord b flags, NodeOperator FSEARCH_QUERY_NODE_OPERATOR_AND],
                \<lparr>lexer = [], operator_stack = [], macro_stack = [], macro_filters = filters,
                 last_token = FSEARCH_QUERY_TOKEN_WORD\<rparr>))"
    by (simp add: parser_eval)
qed

subsection \<open>Runs of \<^verbatim>\<open>NOT\<close>\<close>

lemma consume_not_flip:
  "consume_consecutive_not_token_loop lx (\<not> u) =
   (\<not> fst (consume_consecutive_not_token_loop lx u), snd (consume_consecutive_not_token_loop lx u))"
  by (induction lx arbitrary: u) auto

lemma consume_not_run:
  "list_all (\<lambda>t. fst t = FSEARCH_QUERY_TOKEN_NOT) nots \<Longrightarrow>
   consume_consecutive_not_token_loop (nots @ rest) u =
   consume_consecutive_not_token_loop rest (if even (length nots) then u else \<not> u)"
  by (induction nots arbitrary: u) auto

lemma not_run_even:
  assumes "list_all (\<lambda>t. fst t = FSEARCH_QUERY_TOKEN_NOT) nots" and "even (length nots)"
  shows "parse_expression_loop ext (parse_ctx\<lparr>lexer := nots @ rest\<rparr>) in_open_bracket flags res no nc =
         parse_expression_loop ext (parse_ctx\<lparr>lexer := rest\<rparr>) in_open_bracket flags res no nc"
proof (cases nots)
  case Nil
  then show ?thesis by simp
next
  case (Cons n nots')
  obtain v where n: "n = (FSEARCH_QUERY_TOKEN_NOT, v)"
    using assms(1) Cons by (cases n) auto
  have nots': "list_all (\<lambda>t. fst t = FSEARCH_QUERY_TOKEN_NOT) nots'" "odd (length nots')"
    using assms Cons by auto
  have consume: "consume_consecutive_not_token (nots' @ rest) =
      (\<not> fst (consume_consecutive_not_token rest), snd (consume_consecutive_not_token rest))"
    unfolding consume_consecutive_not_token_def
    using consume_not_run [OF nots'(1), of rest True] nots'(2) consume_not_flip [of rest True]
    by simp
  show ?thesis
  proof (cases rest)
    case Nil
    with consume Cons n show ?thesis
      by (simp add: parse_expression_loop_not switch_not_def append_parsed_def
            consume_consecutive_not_token_def)
  next
    case (Cons t rest')
    show ?thesis
    proof (cases "fst t = FSEARCH_QUERY_TOKEN_NOT")
      case True
      then obtain v' where t: "t = (FSEARCH_QUERY_TOKEN_NOT, v')" by (cases t) auto
      have "consume_consecutive_not_token (nots' @ rest) = consume_consecutive_not_token rest'"
        unfolding consume_consecutive_not_token_def
        using consume_not_run [OF nots'(1), of rest True] nots'(2) Cons t by simp
      with \<open>nots = n # nots'\<close> n Cons t show ?thesis
        by (simp add: parse_expression_loop_not switch_not_def)
    next
      case False
      with consume \<open>nots = n # nots'\<close> n Cons show ?thesis
        by (simp add: parse_expression_loop_not switch_not_def append_parsed_def
              consume_consecutive_not_token_def)
    qed
  qed
qed

lemma not_run_odd:
  assumes "list_all (\<lambda>t. fst t = FSEARCH_QUERY_TOKEN_NOT) nots" and "odd (length nots)"
  shows "parse_expression_loop ext (parse_ctx\<lparr>lexer := nots @ rest\<rparr>) in_open_bracket flags res no nc =
         parse_expression_loop ext (parse_ctx\<lparr>lexer := (FSEARCH_QUERY_TOKEN_NOT, v) # rest\<rparr>)
           in_open_bracket flags res no nc"
proof (cases nots)
  case Nil
  with assms show ?thesis by simp
next
  case (Cons n nots')
  obtain v' where n: "n = (FSEARCH_QUERY_TOKEN_NOT, v')"
    using assms(1) Cons by (cases n) auto
  have nots': "list_all (\<lambda>t. fst t = FSEARCH_QUERY_TOKEN_NOT) nots'" "even (length nots')"
    using assms Cons by auto
  have "consume_consecutive_not_token (nots' @ rest) = consume_consecutive_not_token rest"
    unfolding consume_consecutive_not_token_def
    using consume_not_run [OF nots'(1), of rest True] nots'(2) by simp
  with Cons n show ?thesis
    by (simp add: parse_expression_loop_not switch_not_def)
qed

text \<open>
  Claim C7. A run of \<open>2 * k\<close> tokens \<^verbatim>\<open>NOT\<close> before a token \<open>x\<close> parses to the result of
  the stream without the run, and a run of \<open>2 * k + 1\<close> of them to the result of the
  stream with a single \<^verbatim>\<open>NOT\<close> before \<open>x\<close>, for every \<open>k\<close>, every \<open>x\<close> and every rest of
  the stream.
\<close>

theorem not_parity:
  assumes "list_all (\<lambda>t. fst t = FSEARCH_QUERY_TOKEN_NOT) nots"
  shows "(length nots = 2 * k \<longrightarrow>
            fsearch_query_parser_parse_expression ext (initial_context filters (nots @ x # rest)) False flags
            = fsearch_query_parser_parse_expression ext (initial_context filters (x # rest)) False flags)
       \<and> (length nots = 2 * k + 1 \<longrightarrow>
            fsearch_query_parser_parse_expression ext (initial_context filters (nots @ x # rest)) False flags
            = fsearch_query_parser_parse_expression ext
                (initial_context filters ((FSEARCH_QUERY_TOKEN_NOT, []) # x # rest)) False flags)"
proof (intro conjI impI)
  assume "length nots = 2 * k"
  then have "even (length nots)" by simp
  from not_run_even [OF assms this, where parse_ctx = "initial_context filters []" and rest = "x # rest"
      and ext = ext and in_open_bracket = False and flags = flags and res = "[]" and no = 0 and nc = 0]
  show "fsearch_query_parser_parse_expression ext (initial_context filters (nots @ x # rest)) False flags
            = fsearch_query_parser_parse_expression ext (initial_context filters (x # rest)) False flags"
    by (simp add: fsearch_query_parser_parse_expression_def initial_context_def)
next
  assume "length nots = 2 * k + 1"
  then have "odd (length nots)" by simp
  from not_run_odd [OF assms this, where parse_ctx = "initial_context filters []" and rest = "x # rest"
      and ext = ext and in_open_bracket = False and flags = flags and res = "[]" and no = 0 and nc = 0
      and v = "[]"]
  show "fsearch_query_parser_parse_expression ext (initial_context filters (nots @ x # rest)) False flags
            = fsearch_query_parser_parse_expression ext
                (initial_context filters ((FSEARCH_QUERY_TOKEN_NOT, []) # x # rest)) False flags"
    by (simp add: fsearch_query_parser_parse_expression_def initial_context_def)
qed

text \<open>The query \<^verbatim>\<open>NOT NOT foo\<close> parses to the word \<^verbatim>\<open>foo\<close> alone.\<close>

theorem not_parity_witness:
  "list_all (\<lambda>t. fst t = FSEARCH_QUERY_TOKEN_NOT) [(FSEARCH_QUERY_TOKEN_NOT, []), (FSEARCH_QUERY_TOKEN_NOT, [])]
   \<and> fsearch_query_parser_parse_expression example_externals
        (initial_context [] [(FSEARCH_QUERY_TOKEN_NOT, []), (FSEARCH_QUERY_TOKEN_NOT, []),
                             (FSEARCH_QUERY_TOKEN_WORD, ''foo'')]) False {}
      = Some (Inr ([NodeWord ''foo'' {}],
                \<lparr>lexer = [], operator_stack = [], macro_stack = [], macro_filters = [],
                 last_token = FSEARCH_QUERY_TOKEN_WORD\<rparr>))"
  using not_parity [of "[(FSEARCH_QUERY_TOKEN_NOT, []), (FSEARCH_QUERY_TOKEN_NOT, [])]" 1
      example_externals "[]" "(FSEARCH_QUERY_TOKEN_WORD, ''foo'')" "[]" "{}"]
  by (simp add: parser_eval)

subsection \<open>Flags\<close>












subsection \<open>Every call of the parser returns\<close>

text \<open>What the functions without recursion leave of the context.\<close>

lemma same_input_refl: "same_input parse_ctx parse_ctx"
  by (simp add: same_input_def)

lemma same_input_after: "same_input ctx' parse_ctx \<Longrightarrow> context_after ctx' parse_ctx"
  by (simp add: same_input_def context_after_def)

lemma context_after_trans:
  "context_after c b \<Longrightarrow> context_after b a \<Longrightarrow> context_after c a"
  by (auto simp: context_after_def)

lemma parse_operator_same:
  "parse_operator parse_ctx token = (r, ctx') \<Longrightarrow> same_input ctx' parse_ctx"
  by (auto simp: parse_operator_def same_input_def split: prod.splits)

lemma implicit_and_same:
  "get_implicit_and_if_necessary parse_ctx l n = (r, ctx') \<Longrightarrow> same_input ctx' parse_ctx"
  by (auto simp: get_implicit_and_if_necessary_def same_input_refl
      dest: parse_operator_same split: if_splits)

lemma append_parsed_same:
  "append_parsed parse_ctx l t s to_append res = (res', ctx') \<Longrightarrow> same_input ctx' parse_ctx"
  by (auto simp: append_parsed_def same_input_def
      dest!: implicit_and_same split: if_splits prod.splits)

lemma switch_and_or_same:
  "switch_and_or parse_ctx token = (r, ctx') \<Longrightarrow> same_input ctx' parse_ctx"
  by (auto simp: switch_and_or_def same_input_refl dest: parse_operator_same split: if_splits)

lemma consume_not_length:
  "length (snd (consume_consecutive_not_token_loop lx u)) \<le> length lx"
  by (induction lx arbitrary: u) (auto intro: le_SucI)

lemma discard_length:
  "length (discard_consecutive_binary_operator_tokens lx) \<le> length lx"
  by (induction lx) (auto intro: le_SucI)

lemma switch_not_after:
  "switch_not parse_ctx l = (r, ctx', s) \<Longrightarrow> context_after ctx' parse_ctx"
  using consume_not_length [of "lexer parse_ctx" True]
  by (auto simp: switch_not_def consume_consecutive_not_token_def context_after_def same_input_def
      Let_def dest!: implicit_and_same parse_operator_same split: prod.splits if_splits)

lemma parse_open_bracket_same:
  "parse_open_bracket parse_ctx = (r, ctx') \<Longrightarrow> same_input ctx' parse_ctx"
  by (auto simp: parse_open_bracket_def same_input_def dest!: implicit_and_same split: prod.splits)

lemma switch_bracket_open_after:
  "switch_bracket_open parse_ctx = (r, ctx') \<Longrightarrow> context_after ctx' parse_ctx"
  using discard_length [of "lexer parse_ctx"]
  by (auto simp: switch_bracket_open_def context_after_def same_input_def
      dest!: parse_open_bracket_same split: prod.splits)

lemma parse_close_bracket_same:
  "parse_close_bracket parse_ctx = Inr (r, ctx') \<Longrightarrow> same_input ctx' parse_ctx"
  by (auto simp: parse_close_bracket_def same_input_def split: sum.splits prod.splits)

lemma next_token_after:
  "fsearch_query_lexer_get_next_token lx = (t, lx') \<Longrightarrow> length lx' \<le> length lx"
  by (cases lx) auto

lemma expect_word_after:
  "expect_word lx = (r, lx') \<Longrightarrow> length lx' \<le> length lx"
  by (auto simp: expect_word_def split: prod.splits dest: next_token_after)

lemma numeric_value_after:
  "parse_numeric_function_value parse_ctx flags n p c = (r, ctx') \<Longrightarrow> context_after ctx' parse_ctx"
  by (auto simp: parse_numeric_function_value_def context_after_def
      split: prod.splits if_splits option.splits dest: expect_word_after)

lemma numeric_function_after:
  "parse_numeric_function parse_ctx e flags n p = (r, ctx') \<Longrightarrow> context_after ctx' parse_ctx"
proof (cases e)
  case True
  then show "parse_numeric_function parse_ctx e flags n p = (r, ctx') \<Longrightarrow> ?thesis"
    by (auto simp: parse_numeric_function_def context_after_def)
next
  case False
  obtain token v lx where nt: "fsearch_query_lexer_get_next_token (lexer parse_ctx) = ((token, v), lx)"
    by (metis surj_pair)
  then have len: "length lx \<le> length (lexer parse_ctx)" by (rule next_token_after)
  then have c: "context_after (parse_ctx\<lparr>lexer := lx\<rparr>) parse_ctx"
    by (simp add: context_after_def)
  assume "parse_numeric_function parse_ctx e flags n p = (r, ctx')"
  with False nt have "ctx' = parse_ctx\<lparr>lexer := lx\<rparr>
      \<or> (\<exists>cmp. parse_numeric_function_value (parse_ctx\<lparr>lexer := lx\<rparr>) flags n p cmp = (r, ctx'))"
    by (cases token) (auto simp: parse_numeric_function_def)
  with c show ?thesis
    by (auto dest: numeric_value_after intro: context_after_trans)
qed

lemma string_function_after:
  assumes "expect_word (lexer parse_ctx) = ((w, v), lx)"
  shows "context_after (parse_ctx\<lparr>lexer := lx\<rparr>) parse_ctx"
  using expect_word_after [OF assms] by (simp add: context_after_def)

lemma supported_function_after:
  assumes "(name, function_parser) \<in> set supported_functions"
      and "function_parser ext parse_ctx e flags = (r, ctx')"
  shows "context_after ctx' parse_ctx"
proof -
  have refl: "context_after parse_ctx parse_ctx" by (simp add: context_after_def)
  from assms(1) consider
      "function_parser = parse_function_childcount" | "function_parser = parse_function_childfilecount"
    | "function_parser = parse_function_childfoldercount" | "function_parser = parse_function_contenttype"
    | "function_parser = parse_function_depth" | "function_parser = parse_function_date_modified"
    | "function_parser = parse_function_empty" | "function_parser = parse_function_extension"
    | "function_parser = parse_function_parent" | "function_parser = parse_function_size"
    unfolding supported_functions_def by (simp only: list.set insert_iff empty_iff prod.inject) blast
  then show ?thesis
  proof cases
    case 1 with assms(2) show ?thesis by (auto simp: parse_function_childcount_def dest: numeric_function_after)
  next
    case 2 with assms(2) show ?thesis by (auto simp: parse_function_childfilecount_def dest: numeric_function_after)
  next
    case 3 with assms(2) show ?thesis by (auto simp: parse_function_childfoldercount_def dest: numeric_function_after)
  next
    case 4 with assms(2) refl show ?thesis
      by (auto simp: parse_function_contenttype_def split: if_splits prod.splits dest: string_function_after)
  next
    case 5 with assms(2) show ?thesis by (auto simp: parse_function_depth_def dest: numeric_function_after)
  next
    case 6 with assms(2) show ?thesis by (auto simp: parse_function_date_modified_def dest: numeric_function_after)
  next
    case 7 with assms(2) refl show ?thesis by (auto simp: parse_function_empty_def)
  next
    case 8 with assms(2) refl show ?thesis
      by (auto simp: parse_function_extension_def split: if_splits prod.splits dest: string_function_after)
  next
    case 9 with assms(2) refl show ?thesis
      by (auto simp: parse_function_parent_def Let_def split: if_splits prod.splits dest: string_function_after)
  next
    case 10 with assms(2) show ?thesis by (auto simp: parse_function_size_def dest: numeric_function_after)
  qed
qed

lemma find_filter_bound:
  "find_filter fs name k = Some (i, f) \<Longrightarrow> k \<le> i \<and> i < k + length fs"
  by (induction fs arbitrary: k) (fastforce split: if_splits)+

lemma unexpanded_push:
  assumes "i < length (macro_filters parse_ctx)" and "i \<notin> set (macro_stack parse_ctx)"
      and "macro_stack ctx' = macro_stack parse_ctx @ [i]"
      and "macro_filters ctx' = macro_filters parse_ctx"
  shows "unexpanded_filters ctx' < unexpanded_filters parse_ctx"
proof -
  let ?xs = "filter (\<lambda>j. j \<notin> set (macro_stack parse_ctx)) [0..<length (macro_filters parse_ctx)]"
  have "filter (\<lambda>j. j \<notin> set (macro_stack ctx')) [0..<length (macro_filters ctx')]
        = filter (\<lambda>j. j \<noteq> i) ?xs"
    using assms(3,4) by (auto intro: filter_cong)
  moreover have "i \<in> set ?xs" using assms(1,2) by simp
  then have "length (filter (\<lambda>j. j \<noteq> i) ?xs) < length ?xs"
    by (rule length_filter_less) simp
  ultimately show ?thesis by (simp add: unexpanded_filters_def)
qed

lemma unexpanded_same:
  "context_after ctx' parse_ctx \<Longrightarrow> unexpanded_filters ctx' = unexpanded_filters parse_ctx"
  by (simp add: unexpanded_filters_def context_after_def)

text \<open>
  The parser returns on every call, by induction on the measure of the call: a macro is
  expanded only when its filter is not on the macro stack, which then grows, and every
  other call is made with fewer tokens or is of a lower kind. The hypothesis \<open>ih\<close> of
  the next lemmas is the induction hypothesis.
\<close>

lemma call_returns_smaller:
  assumes ih: "\<forall>call'. (call_measure call', call_measure call)
                  \<in> less_than <*lex*> less_than <*lex*> less_than \<longrightarrow> call_returns ext call'"
      and "context_after (call_context call') (call_context call)"
      and "length (lexer (call_context call')) < length (lexer (call_context call))
           \<or> call_rank call' < call_rank call"
  shows "call_returns ext call'"
proof (rule ih [rule_format])
  from assms(2) have "unexpanded_filters (call_context call') = unexpanded_filters (call_context call)"
    by (rule unexpanded_same)
  moreover from assms(2) have "length (lexer (call_context call')) \<le> length (lexer (call_context call))"
    by (simp add: context_after_def)
  ultimately show "(call_measure call', call_measure call)
                  \<in> less_than <*lex*> less_than <*lex*> less_than"
    using assms(3) by (auto simp: call_measure_def)
qed

text \<open>One round of the loop that goes on with the loop.\<close>

lemma loop_continues:
  assumes ih: "\<forall>call'. (call_measure call', call_measure call)
                  \<in> less_than <*lex*> less_than <*lex*> less_than \<longrightarrow> call_returns ext call'"
      and call: "call = Call_parse_expression_loop parse_ctx b flags res no nc"
      and lex: "lexer parse_ctx = t # rest"
      and after: "context_after ctx2 (parse_ctx\<lparr>lexer := rest\<rparr>)"
  shows "\<exists>r. parser ext (Call_parse_expression_loop ctx2 b' flags' res' no' nc') = Some r
          \<and> (\<forall>res ctx'. r = Inr (res, ctx') \<longrightarrow> context_after ctx' (call_context call))"
proof -
  have shorter: "length (lexer ctx2) < length (lexer parse_ctx)"
    using after lex by (simp add: context_after_def)
  have after': "context_after ctx2 parse_ctx"
    using after lex by (simp add: context_after_def)
  have "call_returns ext (Call_parse_expression_loop ctx2 b' flags' res' no' nc')"
  proof (rule call_returns_smaller [where call = call])
    show "\<forall>call'. (call_measure call', call_measure call)
                  \<in> less_than <*lex*> less_than <*lex*> less_than \<longrightarrow> call_returns ext call'"
      by (rule ih)
    show "context_after (call_context (Call_parse_expression_loop ctx2 b' flags' res' no' nc'))
            (call_context call)"
      using after' by (simp add: call)
    show "length (lexer (call_context (Call_parse_expression_loop ctx2 b' flags' res' no' nc')))
            < length (lexer (call_context call))
          \<or> call_rank (Call_parse_expression_loop ctx2 b' flags' res' no' nc') < call_rank call"
      using shorter by (simp add: call)
  qed
  then obtain r where r: "parser ext (Call_parse_expression_loop ctx2 b' flags' res' no' nc') = Some r"
      "\<And>res ctx'. r = Inr (res, ctx') \<Longrightarrow> context_after ctx' ctx2"
    by (auto simp: call_returns_def)
  with after' show ?thesis
    by (auto simp: call intro: context_after_trans)
qed

lemmas loop_eos = parse_expression_loop_eos [unfolded parse_expression_loop_def]
lemmas loop_eos_token = parse_expression_loop_eos_token [unfolded parse_expression_loop_def]
lemmas loop_not = parse_expression_loop_not [unfolded parse_expression_loop_def]
lemmas loop_and_or = parse_expression_loop_and_or [unfolded parse_expression_loop_def]
lemmas loop_bracket_open = parse_expression_loop_bracket_open [unfolded parse_expression_loop_def]
lemmas loop_bracket_close = parse_expression_loop_bracket_close [unfolded parse_expression_loop_def]
lemmas loop_word = parse_expression_loop_word [unfolded parse_expression_loop_def]
lemmas loop_field = parse_expression_loop_field [unfolded parse_expression_loop_def parse_field_def]
lemmas loop_other = parse_expression_loop_other [unfolded parse_expression_loop_def]

lemma loop_returns:
  assumes ih: "\<forall>call'. (call_measure call', call_measure call)
                  \<in> less_than <*lex*> less_than <*lex*> less_than \<longrightarrow> call_returns ext call'"
      and call: "call = Call_parse_expression_loop parse_ctx b flags res no nc"
  shows "call_returns ext call"
proof (cases "lexer parse_ctx")
  case Nil
  then show ?thesis
    by (simp add: call_returns_def call loop_eos context_after_def)
next
  case (Cons t rest)
  obtain token v where t: "t = (token, v)" by (cases t)
  note lex = Cons [unfolded t]
  note cont = loop_continues [OF ih call Cons]
  have after0: "context_after (parse_ctx\<lparr>lexer := rest\<rparr>) (parse_ctx\<lparr>lexer := rest\<rparr>)"
    by (simp add: context_after_def)
  have and_or: ?thesis if tok: "token = FSEARCH_QUERY_TOKEN_AND \<or> token = FSEARCH_QUERY_TOKEN_OR"
  proof -
    obtain ta ctx1 where sw: "switch_and_or (parse_ctx\<lparr>lexer := rest\<rparr>) token = (ta, ctx1)"
      by fastforce
    obtain res' ctx2 where ap:
      "append_parsed ctx1 (last_token parse_ctx) token False ta res = (res', ctx2)"
      by fastforce
    have "context_after ctx2 (parse_ctx\<lparr>lexer := rest\<rparr>)"
      using switch_and_or_same [OF sw] append_parsed_same [OF ap]
      by (simp add: same_input_def context_after_def)
    from cont [OF this] show ?thesis
      by (simp add: call_returns_def call loop_and_or [OF lex tok] sw ap)
  qed
  have field: ?thesis
    if tok: "token = FSEARCH_QUERY_TOKEN_FIELD \<or> token = FSEARCH_QUERY_TOKEN_FIELD_EMPTY"
  proof -
    let ?c1 = "Call_parse_field (parse_ctx\<lparr>lexer := rest\<rparr>) v
                 (token = FSEARCH_QUERY_TOKEN_FIELD_EMPTY) flags"
    have "call_returns ext ?c1"
    proof (rule call_returns_smaller [where call = call])
      show "\<forall>call'. (call_measure call', call_measure call)
                  \<in> less_than <*lex*> less_than <*lex*> less_than \<longrightarrow> call_returns ext call'"
        by (rule ih)
      show "context_after (call_context ?c1) (call_context call)"
        using Cons by (simp add: call context_after_def)
      show "length (lexer (call_context ?c1)) < length (lexer (call_context call))
            \<or> call_rank ?c1 < call_rank call"
        using Cons by (simp add: call)
    qed
    then obtain r1 where r1: "parser ext ?c1 = Some r1"
      "\<And>ta ctx1. r1 = Inr (ta, ctx1) \<Longrightarrow> context_after ctx1 (parse_ctx\<lparr>lexer := rest\<rparr>)"
      by (auto simp: call_returns_def)
    show ?thesis
    proof (cases r1)
      case (Inl e)
      with r1(1) show ?thesis
        by (simp add: call_returns_def call loop_field [OF lex tok])
    next
      case (Inr p)
      obtain ta ctx1 where p: "p = (ta, ctx1)" by (cases p)
      obtain res' ctx2 where ap:
        "append_parsed ctx1 (last_token parse_ctx) token False ta res = (res', ctx2)"
        by fastforce
      have "context_after ctx2 (parse_ctx\<lparr>lexer := rest\<rparr>)"
        using r1(2) [of ta ctx1] Inr p append_parsed_same [OF ap]
        by (simp add: same_input_def context_after_def)
      from cont [OF this] r1(1) Inr p show ?thesis
        by (simp add: call_returns_def call loop_field [OF lex tok] ap)
    qed
  qed
  have other: ?thesis
    if tok: "token \<in> {FSEARCH_QUERY_TOKEN_NONE, FSEARCH_QUERY_TOKEN_EQUAL,
       FSEARCH_QUERY_TOKEN_SMALLER, FSEARCH_QUERY_TOKEN_SMALLER_EQ, FSEARCH_QUERY_TOKEN_GREATER,
       FSEARCH_QUERY_TOKEN_GREATER_EQ}"
    using cont [OF after0] by (simp add: call_returns_def call loop_other [OF lex tok])
  show ?thesis
  proof (cases token)
    case FSEARCH_QUERY_TOKEN_NONE
    then show ?thesis by (intro other) simp
  next
    case FSEARCH_QUERY_TOKEN_EOS
    with lex show ?thesis
      by (simp add: call_returns_def call loop_eos_token context_after_def)
  next
    case FSEARCH_QUERY_TOKEN_WORD
    obtain res' ctx2 where ap:
      "append_parsed (parse_ctx\<lparr>lexer := rest\<rparr>) (last_token parse_ctx) FSEARCH_QUERY_TOKEN_WORD
         False [NodeWord v flags] res = (res', ctx2)"
      by fastforce
    from cont [OF same_input_after [OF append_parsed_same [OF ap]]] show ?thesis
      by (simp add: call_returns_def call loop_word [OF lex [unfolded FSEARCH_QUERY_TOKEN_WORD]] ap)
  next
    case FSEARCH_QUERY_TOKEN_FIELD
    then show ?thesis by (intro field) simp
  next
    case FSEARCH_QUERY_TOKEN_FIELD_EMPTY
    then show ?thesis by (intro field) simp
  next
    case FSEARCH_QUERY_TOKEN_AND
    then show ?thesis by (intro and_or) simp
  next
    case FSEARCH_QUERY_TOKEN_OR
    then show ?thesis by (intro and_or) simp
  next
    case FSEARCH_QUERY_TOKEN_NOT
    obtain ta ctx1 skip where sw:
      "switch_not (parse_ctx\<lparr>lexer := rest\<rparr>) (last_token parse_ctx) = (ta, ctx1, skip)"
      by (metis prod_cases3)
    obtain res' ctx2 where ap:
      "append_parsed ctx1 (last_token parse_ctx) FSEARCH_QUERY_TOKEN_NOT skip ta res = (res', ctx2)"
      by fastforce
    have "context_after ctx2 (parse_ctx\<lparr>lexer := rest\<rparr>)"
      using switch_not_after [OF sw] append_parsed_same [OF ap]
      by (simp add: same_input_def context_after_def)
    from cont [OF this] show ?thesis
      by (simp add: call_returns_def call loop_not [OF lex [unfolded FSEARCH_QUERY_TOKEN_NOT]] sw ap)
  next
    case FSEARCH_QUERY_TOKEN_BRACKET_OPEN
    obtain ta ctx1 where sw: "switch_bracket_open (parse_ctx\<lparr>lexer := rest\<rparr>) = (ta, ctx1)"
      by fastforce
    obtain res' ctx2 where ap:
      "append_parsed ctx1 (last_token parse_ctx) FSEARCH_QUERY_TOKEN_BRACKET_OPEN False ta res
         = (res', ctx2)"
      by fastforce
    have "context_after ctx2 (parse_ctx\<lparr>lexer := rest\<rparr>)"
      using switch_bracket_open_after [OF sw] append_parsed_same [OF ap]
      by (simp add: same_input_def context_after_def)
    from cont [OF this] show ?thesis
      by (simp add: call_returns_def call
            loop_bracket_open [OF lex [unfolded FSEARCH_QUERY_TOKEN_BRACKET_OPEN]] sw ap)
  next
    case FSEARCH_QUERY_TOKEN_BRACKET_CLOSE
    note eq = loop_bracket_close [OF lex [unfolded FSEARCH_QUERY_TOKEN_BRACKET_CLOSE]]
    show ?thesis
    proof (cases "no > nc")
      case False
      with Cons show ?thesis
        by (simp add: call_returns_def call eq context_after_def)
    next
      case True
      show ?thesis
      proof (cases "parse_close_bracket (parse_ctx\<lparr>lexer := rest\<rparr>)")
        case (Inl e)
        with True show ?thesis
          by (simp add: call_returns_def call eq)
      next
        case (Inr p)
        obtain ta ctx1 where p: "p = (ta, ctx1)" by (cases p)
        have same1: "same_input ctx1 (parse_ctx\<lparr>lexer := rest\<rparr>)"
          using Inr p by (auto dest: parse_close_bracket_same)
        obtain res' ctx2 where ap:
          "append_parsed ctx1 (last_token parse_ctx) FSEARCH_QUERY_TOKEN_BRACKET_CLOSE False ta res
             = (res', ctx2)"
          by fastforce
        have after2: "context_after ctx2 (parse_ctx\<lparr>lexer := rest\<rparr>)"
          using same1 append_parsed_same [OF ap]
          by (simp add: same_input_def context_after_def)
        show ?thesis
        proof (cases "b \<and> nc + 1 = no")
          case True
          with \<open>no > nc\<close> Inr p same1 Cons show ?thesis
            by (simp add: call_returns_def call eq same_input_def context_after_def)
        next
          case False
          with cont [OF after2] \<open>no > nc\<close> Inr p ap show ?thesis
            by (auto simp: call_returns_def call eq)
        qed
      qed
    qed
  next
    case FSEARCH_QUERY_TOKEN_EQUAL
    then show ?thesis by (intro other) simp
  next
    case FSEARCH_QUERY_TOKEN_SMALLER
    then show ?thesis by (intro other) simp
  next
    case FSEARCH_QUERY_TOKEN_SMALLER_EQ
    then show ?thesis by (intro other) simp
  next
    case FSEARCH_QUERY_TOKEN_GREATER
    then show ?thesis by (intro other) simp
  next
    case FSEARCH_QUERY_TOKEN_GREATER_EQ
    then show ?thesis by (intro other) simp
  qed
qed

lemmas field_unfold = parse_field_unfold [unfolded parse_field_def parse_filter_macros_def parse_modifier_def]
lemmas modifier_unfold = parse_modifier_unfold
  [unfolded parse_field_def parse_modifier_def fsearch_query_parser_parse_expression_def
     parse_expression_loop_def, simplified]
lemmas macros_unfold = parse_filter_macros_unfold
  [unfolded parse_filter_macros_def fsearch_query_parser_parse_expression_def
     parse_expression_loop_def, simplified]

lemma field_returns:
  assumes ih: "\<forall>call'. (call_measure call', call_measure call)
                  \<in> less_than <*lex*> less_than <*lex*> less_than \<longrightarrow> call_returns ext call'"
      and call: "call = Call_parse_field parse_ctx name e flags"
  shows "call_returns ext call"
proof -
  let ?c1 = "Call_parse_filter_macros parse_ctx name flags"
  have "call_returns ext ?c1"
    by (rule call_returns_smaller [OF ih]) (simp_all add: call context_after_def)
  then obtain r1 where r1: "parser ext ?c1 = Some r1"
      "\<And>res ctx1. r1 = Inr (res, ctx1) \<Longrightarrow> context_after ctx1 parse_ctx"
    by (auto simp: call_returns_def)
  show ?thesis
  proof (cases r1)
    case (Inl err)
    with r1(1) show ?thesis
      by (simp add: call_returns_def call field_unfold)
  next
    case (Inr p)
    obtain res ctx1 where p: "p = (res, ctx1)" by (cases p)
    have after1: "context_after ctx1 parse_ctx"
      using r1(2) Inr p by simp
    show ?thesis
    proof (cases "res = []")
      case False
      with r1(1) Inr p after1 show ?thesis
        by (simp add: call_returns_def call field_unfold)
    next
      case True
      show ?thesis
      proof (cases "find (\<lambda>modifier. fst modifier = name) supported_modifiers")
        case (Some m)
        obtain n flag operation where m: "m = (n, flag, operation)" by (cases m)
        let ?c2 = "Call_parse_modifier ctx1 e (apply_flag_operation operation flag flags)"
        have "call_returns ext ?c2"
          using after1 by (intro call_returns_smaller [OF ih]) (simp_all add: call)
        then obtain r2 where r2: "parser ext ?c2 = Some r2"
          "\<And>res' ctx2. r2 = Inr (res', ctx2) \<Longrightarrow> context_after ctx2 ctx1"
          by (auto simp: call_returns_def)
        with r1(1) Inr p True Some m after1 show ?thesis
          by (auto simp: call_returns_def call field_unfold intro: context_after_trans)
      next
        case None
        show ?thesis
        proof (cases "find (\<lambda>function. fst function = name) supported_functions")
          case None
          with r1(1) Inr p True \<open>find (\<lambda>modifier. fst modifier = name) supported_modifiers = None\<close>
            after1
          show ?thesis
            by (simp add: call_returns_def call field_unfold)
        next
          case (Some f)
          obtain n function_parser where f: "f = (n, function_parser)" by (cases f)
          have "(n, function_parser) \<in> set supported_functions"
            using Some f by (auto simp: find_Some_iff in_set_conv_nth)
          then have "context_after (snd (function_parser ext ctx1 e flags)) ctx1"
            by (rule supported_function_after) (rule surjective_pairing)
          with after1 have "context_after (snd (function_parser ext ctx1 e flags)) parse_ctx"
            by (rule context_after_trans [rotated])
          with r1(1) Inr p True \<open>find (\<lambda>modifier. fst modifier = name) supported_modifiers = None\<close>
            Some f
          show ?thesis
            by (auto simp: call_returns_def call field_unfold)
        qed
      qed
    qed
  qed
qed

lemma modifier_returns:
  assumes ih: "\<forall>call'. (call_measure call', call_measure call)
                  \<in> less_than <*lex*> less_than <*lex*> less_than \<longrightarrow> call_returns ext call'"
      and call: "call = Call_parse_modifier parse_ctx e flags"
  shows "call_returns ext call"
proof (cases "e \<or> lexer parse_ctx = []")
  case True
  then show ?thesis
    by (auto simp: call_returns_def call modifier_unfold Let_def context_after_def)
next
  case False
  then obtain token v rest where lex: "lexer parse_ctx = (token, v) # rest" and e: "\<not> e"
    by (cases "lexer parse_ctx") auto
  let ?ctx0 = "parse_ctx\<lparr>lexer := rest\<rparr>"
  have after0: "context_after ?ctx0 parse_ctx"
    using lex by (simp add: context_after_def)
  have field: ?thesis if tok: "token = FSEARCH_QUERY_TOKEN_FIELD \<or> token = FSEARCH_QUERY_TOKEN_FIELD_EMPTY"
  proof -
    let ?c1 = "Call_parse_field ?ctx0 v (token = FSEARCH_QUERY_TOKEN_FIELD_EMPTY) flags"
    have "call_returns ext ?c1"
      using after0 lex by (intro call_returns_smaller [OF ih]) (simp_all add: call)
    then obtain r1 where r1: "parser ext ?c1 = Some r1"
      "\<And>res ctx1. r1 = Inr (res, ctx1) \<Longrightarrow> context_after ctx1 ?ctx0"
      by (auto simp: call_returns_def)
    then have "\<And>res ctx1. r1 = Inr (res, ctx1) \<Longrightarrow> context_after ctx1 parse_ctx"
      using after0 by (blast intro: context_after_trans)
    with r1(1) tok e lex show ?thesis
      by (auto simp: call_returns_def call modifier_unfold Let_def)
  qed
  show ?thesis
  proof (cases "token = FSEARCH_QUERY_TOKEN_BRACKET_OPEN")
    case True
    obtain res ctx1 where ob: "parse_open_bracket ?ctx0 = (res, ctx1)" by fastforce
    have after1: "context_after ctx1 parse_ctx" "length (lexer ctx1) < length (lexer parse_ctx)"
      using parse_open_bracket_same [OF ob] lex by (simp_all add: same_input_def context_after_def)
    let ?c1 = "Call_parse_expression_loop ctx1 True flags [] 1 0"
    have "call_returns ext ?c1"
      using after1 by (intro call_returns_smaller [OF ih]) (simp_all add: call)
    then obtain r1 where r1: "parser ext ?c1 = Some r1"
      "\<And>res ctx2. r1 = Inr (res, ctx2) \<Longrightarrow> context_after ctx2 ctx1"
      by (auto simp: call_returns_def)
    with True e lex ob after1(1) show ?thesis
      by (cases r1) (auto simp: call_returns_def call modifier_unfold Let_def intro: context_after_trans)
  next
    case False
    show ?thesis
    proof (cases "token = FSEARCH_QUERY_TOKEN_FIELD \<or> token = FSEARCH_QUERY_TOKEN_FIELD_EMPTY")
      case True
      then show ?thesis by (rule field)
    next
      case no_field: False
      with False e lex after0 show ?thesis
        by (auto simp: call_returns_def call modifier_unfold Let_def)
    qed
  qed
qed

lemma macros_returns:
  assumes ih: "\<forall>call'. (call_measure call', call_measure call)
                  \<in> less_than <*lex*> less_than <*lex*> less_than \<longrightarrow> call_returns ext call'"
      and call: "call = Call_parse_filter_macros parse_ctx name flags"
  shows "call_returns ext call"
proof (cases "find_filter (macro_filters parse_ctx) name 0")
  case None
  then show ?thesis
    by (simp add: call_returns_def call macros_unfold context_after_def)
next
  case (Some p)
  obtain i filt where p: "p = (i, filt)" by (cases p)
  show ?thesis
  proof (cases "i \<in> set (macro_stack parse_ctx) \<or> fsearch_string_is_empty (query filt)")
    case True
    with Some p show ?thesis
      by (auto simp: call_returns_def call macros_unfold context_after_def)
  next
    case False
    have bound: "i < length (macro_filters parse_ctx)"
      using find_filter_bound [of "macro_filters parse_ctx" name 0 i filt] Some p by simp
    define ctx1 where "ctx1 = parse_ctx\<lparr>macro_stack := macro_stack parse_ctx @ [i],
                                      lexer := fsearch_query_lexer_new ext (query filt),
                                      operator_stack := []\<rparr>"
    have less: "unexpanded_filters ctx1 < unexpanded_filters parse_ctx"
      using bound False by (intro unexpanded_push [where i = i]) (simp_all add: ctx1_def)
    have all: "call_returns ext (Call_parse_expression_loop ctx1 False flags' [] 0 0)" for flags'
      by (rule ih [rule_format]) (use less in \<open>simp add: call call_measure_def\<close>)
    show ?thesis
      unfolding call_returns_def call
    proof -
      define flags3 where "flags3 =
        (if QUERY_FLAG_REGEX \<in> filter_flags filt
         then insert QUERY_FLAG_REGEX
           (if QUERY_FLAG_MATCH_CASE \<in> filter_flags filt
            then insert QUERY_FLAG_MATCH_CASE
              (if QUERY_FLAG_SEARCH_IN_PATH \<in> filter_flags filt
               then insert QUERY_FLAG_SEARCH_IN_PATH flags else flags)
            else (if QUERY_FLAG_SEARCH_IN_PATH \<in> filter_flags filt
               then insert QUERY_FLAG_SEARCH_IN_PATH flags else flags))
         else
           (if QUERY_FLAG_MATCH_CASE \<in> filter_flags filt
            then insert QUERY_FLAG_MATCH_CASE
              (if QUERY_FLAG_SEARCH_IN_PATH \<in> filter_flags filt
               then insert QUERY_FLAG_SEARCH_IN_PATH flags else flags)
            else (if QUERY_FLAG_SEARCH_IN_PATH \<in> filter_flags filt
               then insert QUERY_FLAG_SEARCH_IN_PATH flags else flags)))"
      from all [of flags3] obtain r1 where
        r1: "parser ext (Call_parse_expression_loop ctx1 False flags3 [] 0 0) = Some r1"
          "\<And>res ctx2. r1 = Inr (res, ctx2) \<Longrightarrow> context_after ctx2 ctx1"
        by (auto simp: call_returns_def)
      have eq: "parser ext (Call_parse_filter_macros parse_ctx name flags) =
        Option.bind (parser ext (Call_parse_expression_loop ctx1 False flags3 [] 0 0))
          (\<lambda>r. case r of
                  Inl e \<Rightarrow> Some (Inl e)
                | Inr (res, ctx2) \<Rightarrow>
                    Some (Inr (res,
                      ctx2\<lparr>operator_stack := operator_stack parse_ctx,
                           lexer := lexer parse_ctx,
                           macro_stack := butlast (macro_stack ctx2)\<rparr>)))"
        using Some p False
        by (simp add: macros_unfold Let_def ctx1_def flags3_def)
      show "\<exists>r. parser ext (Call_parse_filter_macros parse_ctx name flags) = Some r \<and>
        (\<forall>res ctx'. r = Inr (res, ctx') \<longrightarrow>
           context_after ctx' (call_context (Call_parse_filter_macros parse_ctx name flags)))"
      proof (cases r1)
        case (Inl err)
        with r1(1) show ?thesis by (simp add: eq)
      next
        case (Inr q)
        obtain res ctx2 where q: "q = (res, ctx2)" by (cases q)
        have "context_after ctx2 ctx1" using r1(2) Inr q by simp
        then have "macro_stack ctx2 = macro_stack parse_ctx @ [i]"
            "macro_filters ctx2 = macro_filters parse_ctx"
          by (simp_all add: context_after_def ctx1_def)
        with r1(1) Inr q show ?thesis
          by (simp add: eq context_after_def)
      qed
    qed
  qed
qed

lemma parser_call_returns: "call_returns ext call"
proof -
  have "wf (inv_image (less_than <*lex*> less_than <*lex*> less_than) call_measure)"
    by (intro wf_inv_image wf_lex_prod wf_less_than)
  then show ?thesis
  proof (induction call rule: wf_induct_rule)
    case (less call)
    then have ih: "\<forall>call'. (call_measure call', call_measure call)
                  \<in> less_than <*lex*> less_than <*lex*> less_than \<longrightarrow> call_returns ext call'"
      by simp
    show ?case
    proof (cases call)
      case (Call_parse_expression_loop parse_ctx b flags res no nc)
      with ih show ?thesis by (rule loop_returns)
    next
      case (Call_parse_field parse_ctx name e flags)
      with ih show ?thesis by (rule field_returns)
    next
      case (Call_parse_modifier parse_ctx e flags)
      with ih show ?thesis by (rule modifier_returns)
    next
      case (Call_parse_filter_macros parse_ctx name flags)
      with ih show ?thesis by (rule macros_returns)
    qed
  qed
qed

text \<open>
  Claim C5. For every macro registry, every token stream and every state of the context,
  the parser returns: its value is never \<open>None\<close>, the value of a run without end. A macro
  may name itself, directly or through other macros: a filter that is on the macro stack
  is not expanded again, the call gives no nodes and leaves the context as it was.
\<close>

theorem parser_terminates:
  "(\<exists>r. fsearch_query_parser_parse_expression ext parse_ctx in_open_bracket flags = Some r)
   \<and> (find_filter (macro_filters macro_ctx) name 0 = Some (i, filt)
      \<and> i \<in> set (macro_stack macro_ctx) \<longrightarrow>
        parse_filter_macros ext macro_ctx name macro_flags = Some (Inr ([], macro_ctx)))"
proof
  show "\<exists>r. fsearch_query_parser_parse_expression ext parse_ctx in_open_bracket flags = Some r"
    using parser_call_returns
      [of ext "Call_parse_expression_loop parse_ctx in_open_bracket flags []
                 (if in_open_bracket then 1 else 0) 0"]
    unfolding call_returns_def fsearch_query_parser_parse_expression_def parse_expression_loop_def
    by blast
next
  show "find_filter (macro_filters macro_ctx) name 0 = Some (i, filt)
      \<and> i \<in> set (macro_stack macro_ctx) \<longrightarrow>
        parse_filter_macros ext macro_ctx name macro_flags = Some (Inr ([], macro_ctx))"
    by (simp add: parse_filter_macros_unfold)
qed

text \<open>
  The macro \<^verbatim>\<open>A\<close> with the text \<^verbatim>\<open>A:\<close> names itself. The query \<^verbatim>\<open>A:\<close> expands it once;
  inside, the field \<^verbatim>\<open>A\<close> is on the macro stack, gives no nodes and is the
  match-nothing node of an unknown field.
\<close>

theorem parser_terminates_witness:
  "find_filter
     (macro_filters
        \<lparr>lexer = [], operator_stack = [], macro_stack = [0],
         macro_filters = [\<lparr>macro = ''A'', query = ''A:'', filter_flags = {}\<rparr>],
         last_token = FSEARCH_QUERY_TOKEN_NONE\<rparr>) ''A'' 0
     = Some (0, \<lparr>macro = ''A'', query = ''A:'', filter_flags = {}\<rparr>)
   \<and> parse_filter_macros example_externals
        \<lparr>lexer = [], operator_stack = [], macro_stack = [0],
         macro_filters = [\<lparr>macro = ''A'', query = ''A:'', filter_flags = {}\<rparr>],
         last_token = FSEARCH_QUERY_TOKEN_NONE\<rparr> ''A'' {}
     = Some (Inr ([],
        \<lparr>lexer = [], operator_stack = [], macro_stack = [0],
         macro_filters = [\<lparr>macro = ''A'', query = ''A:'', filter_flags = {}\<rparr>],
         last_token = FSEARCH_QUERY_TOKEN_NONE\<rparr>))
   \<and> fsearch_query_parser_parse_expression example_externals
        (initial_context [\<lparr>macro = ''A'', query = ''A:'', filter_flags = {}\<rparr>]
           [(FSEARCH_QUERY_TOKEN_FIELD_EMPTY, ''A'')]) False {}
     = Some (Inr ([NodeMatchNothing],
        \<lparr>lexer = [], operator_stack = [], macro_stack = [],
         macro_filters = [\<lparr>macro = ''A'', query = ''A:'', filter_flags = {}\<rparr>],
         last_token = FSEARCH_QUERY_TOKEN_FIELD_EMPTY\<rparr>))"
  using parser_terminates
    [of example_externals
        "initial_context [\<lparr>macro = ''A'', query = ''A:'', filter_flags = {}\<rparr>]
           [(FSEARCH_QUERY_TOKEN_FIELD_EMPTY, ''A'')]" False "{}"
        "\<lparr>lexer = [], operator_stack = [], macro_stack = [0],
         macro_filters = [\<lparr>macro = ''A'', query = ''A:'', filter_flags = {}\<rparr>],
         last_token = FSEARCH_QUERY_TOKEN_NONE\<rparr>"
        "''A''" 0 "\<lparr>macro = ''A'', query = ''A:'', filter_flags = {}\<rparr>" "{}"]
  by (simp add: parser_eval example_externals_def example_lexer_new_def)

subsection \<open>A closing bracket without an open one\<close>

lemma excess_close_prefix:
  "excess_close ks d \<longleftrightarrow>
   (\<exists>n. count_list (take n ks) FSEARCH_QUERY_TOKEN_BRACKET_CLOSE
          > count_list (take n ks) FSEARCH_QUERY_TOKEN_BRACKET_OPEN + d)"
proof (induction ks arbitrary: d)
  case Nil
  then show ?case by simp
next
  case (Cons t ts)
  let ?P = "\<lambda>n. count_list (take n (t # ts)) FSEARCH_QUERY_TOKEN_BRACKET_CLOSE
          > count_list (take n (t # ts)) FSEARCH_QUERY_TOKEN_BRACKET_OPEN + d"
  have split: "(\<exists>n. ?P n) \<longleftrightarrow> (\<exists>m. ?P (Suc m))"
  proof
    assume "\<exists>n. ?P n"
    then obtain n where n: "?P n" ..
    then have "n \<noteq> 0" by (cases n) auto
    then obtain m where "n = Suc m" by (cases n) auto
    with n show "\<exists>m. ?P (Suc m)" by blast
  qed blast
  show ?case
  proof (cases "t = FSEARCH_QUERY_TOKEN_BRACKET_OPEN")
    case True
    then show ?thesis unfolding split using Cons.IH [of "Suc d"] by simp
  next
    case False
    show ?thesis
    proof (cases "t = FSEARCH_QUERY_TOKEN_BRACKET_CLOSE")
      case no: False
      with False show ?thesis unfolding split using Cons.IH [of d] by simp
    next
      case True
      show ?thesis
      proof (cases d)
        case 0
        have "?P (Suc 0)" using True 0 by simp
        then have "\<exists>n. ?P n" by blast
        with True 0 show ?thesis by simp
      next
        case (Suc d')
        with True show ?thesis unfolding split using Cons.IH [of d'] by simp
      qed
    qed
  qed
qed

lemma operator_pop_brackets:
  "0 < get_operator_precedence token \<Longrightarrow> parse_operator_pop token st res = (r, st') \<Longrightarrow>
   count_list st' FSEARCH_QUERY_TOKEN_BRACKET_OPEN = count_list st FSEARCH_QUERY_TOKEN_BRACKET_OPEN
   \<and> set st' \<subseteq> set st"
proof (induction st arbitrary: res)
  case Nil
  then show ?case by simp
next
  case (Cons t st)
  show ?case
  proof (cases "get_operator_precedence token \<le> get_operator_precedence t")
    case True
    with Cons.prems(1) have "t \<noteq> FSEARCH_QUERY_TOKEN_BRACKET_OPEN" by auto
    with True Cons show ?thesis by (auto split: if_splits)
  next
    case False
    with Cons.prems show ?thesis by simp
  qed
qed

lemma parse_operator_brackets:
  assumes "0 < get_operator_precedence token" and "token \<noteq> FSEARCH_QUERY_TOKEN_NONE"
      and "token \<noteq> FSEARCH_QUERY_TOKEN_BRACKET_OPEN"
      and "parse_operator parse_ctx token = (r, ctx')" and "bracket_state parse_ctx d"
  shows "bracket_state ctx' d"
proof -
  obtain popped st' where pop: "parse_operator_pop token (operator_stack parse_ctx) [] = (popped, st')"
    by fastforce
  from operator_pop_brackets [OF assms(1) pop] assms(2,3,4,5) pop show ?thesis
    by (auto simp: parse_operator_def bracket_state_def push_query_token_def)
qed

lemma implicit_and_brackets:
  "get_implicit_and_if_necessary parse_ctx l n = (r, ctx') \<Longrightarrow> bracket_state parse_ctx d \<Longrightarrow>
   bracket_state ctx' d"
  by (auto simp: get_implicit_and_if_necessary_def split: if_splits
      intro: parse_operator_brackets [where token = FSEARCH_QUERY_TOKEN_AND, rotated 3])

lemma append_parsed_brackets:
  assumes "append_parsed parse_ctx l t s to_append res = (res', ctx')" and "bracket_state parse_ctx d"
  shows "bracket_state ctx' d"
proof -
  obtain ia ctx1 where ia: "get_implicit_and_if_necessary parse_ctx l t = (ia, ctx1)" by fastforce
  from implicit_and_brackets [OF ia assms(2)] assms ia show ?thesis
    by (auto simp: append_parsed_def bracket_state_def split: if_splits)
qed

lemma switch_and_or_brackets:
  assumes "token = FSEARCH_QUERY_TOKEN_AND \<or> token = FSEARCH_QUERY_TOKEN_OR"
      and "switch_and_or parse_ctx token = (r, ctx')" and "bracket_state parse_ctx d"
  shows "bracket_state ctx' d"
  using assms
  by (auto simp: switch_and_or_def split: if_splits
      intro: parse_operator_brackets [where token = FSEARCH_QUERY_TOKEN_AND, rotated 3]
             parse_operator_brackets [where token = FSEARCH_QUERY_TOKEN_OR, rotated 3])

lemma switch_not_brackets:
  assumes "switch_not parse_ctx l = (r, ctx', s)" and "bracket_state parse_ctx d"
  shows "bracket_state ctx' d
         \<and> lexer ctx' = snd (consume_consecutive_not_token_loop (lexer parse_ctx) True)"
proof -
  obtain u lx where c: "consume_consecutive_not_token (lexer parse_ctx) = (u, lx)" by fastforce
  let ?ctx1 = "parse_ctx\<lparr>lexer := lx\<rparr>"
  have b1: "bracket_state ?ctx1 d" using assms(2) by (simp add: bracket_state_def)
  obtain ia ctx2 where ia:
    "get_implicit_and_if_necessary ?ctx1 l FSEARCH_QUERY_TOKEN_NOT = (ia, ctx2)" by fastforce
  obtain popped ctx3 where po: "parse_operator ctx2 FSEARCH_QUERY_TOKEN_NOT = (popped, ctx3)"
    by fastforce
  have b3: "bracket_state ctx3 d"
    by (rule parse_operator_brackets [OF _ _ _ po implicit_and_brackets [OF ia b1]]) simp_all
  have l3: "lexer ctx3 = lx"
    using implicit_and_same [OF ia] parse_operator_same [OF po] by (simp add: same_input_def)
  from assms(1) c ia po b1 b3 l3 show ?thesis
    by (auto simp: switch_not_def consume_consecutive_not_token_def Let_def split: if_splits)
qed

lemma parse_open_bracket_brackets:
  assumes "parse_open_bracket parse_ctx = (r, ctx')" and "bracket_state parse_ctx d"
  shows "bracket_state ctx' (Suc d)"
proof -
  obtain ia ctx1 where ia:
    "get_implicit_and_if_necessary parse_ctx (last_token parse_ctx) FSEARCH_QUERY_TOKEN_BRACKET_OPEN
       = (ia, ctx1)" by fastforce
  from implicit_and_brackets [OF ia assms(2)] assms(1) ia show ?thesis
    by (auto simp: parse_open_bracket_def bracket_state_def push_query_token_def)
qed

lemma switch_bracket_open_brackets:
  assumes "switch_bracket_open parse_ctx = (r, ctx')" and "bracket_state parse_ctx d"
  shows "bracket_state ctx' (Suc d)
         \<and> lexer ctx' = discard_consecutive_binary_operator_tokens (lexer parse_ctx)"
proof -
  obtain ta ctx1 where ob: "parse_open_bracket parse_ctx = (ta, ctx1)" by fastforce
  from parse_open_bracket_brackets [OF ob assms(2)] parse_open_bracket_same [OF ob] assms(1) ob
  show ?thesis
    by (auto simp: switch_bracket_open_def bracket_state_def same_input_def)
qed

lemma close_bracket_pop_brackets:
  "0 < count_list st FSEARCH_QUERY_TOKEN_BRACKET_OPEN \<Longrightarrow> FSEARCH_QUERY_TOKEN_NONE \<notin> set st \<Longrightarrow>
   \<exists>r st'. parse_close_bracket_pop st res = Inr (r, st')
      \<and> Suc (count_list st' FSEARCH_QUERY_TOKEN_BRACKET_OPEN)
          = count_list st FSEARCH_QUERY_TOKEN_BRACKET_OPEN
      \<and> set st' \<subseteq> set st"
proof (induction st arbitrary: res)
  case Nil
  then show ?case by simp
next
  case (Cons t st)
  show ?case
  proof (cases "t = FSEARCH_QUERY_TOKEN_BRACKET_OPEN")
    case True
    then show ?thesis by auto
  next
    case False
    with Cons.prems have "0 < count_list st FSEARCH_QUERY_TOKEN_BRACKET_OPEN"
        "FSEARCH_QUERY_TOKEN_NONE \<notin> set st" "t \<noteq> FSEARCH_QUERY_TOKEN_NONE"
      by auto
    from Cons.IH [OF this(1,2), of "append_to_list_if_nonnull res (get_operator_node_for_query_token t)"]
      False this(3)
    show ?thesis by auto
  qed
qed

lemma parse_close_bracket_brackets:
  assumes "bracket_state parse_ctx (Suc d)"
  shows "\<exists>r ctx'. parse_close_bracket parse_ctx = Inr (r, ctx') \<and> bracket_state ctx' d
           \<and> lexer ctx' = lexer parse_ctx"
proof -
  from assms have "0 < count_list (operator_stack parse_ctx) FSEARCH_QUERY_TOKEN_BRACKET_OPEN"
      "FSEARCH_QUERY_TOKEN_NONE \<notin> set (operator_stack parse_ctx)"
    by (auto simp: bracket_state_def)
  from close_bracket_pop_brackets [OF this, of "[]"] assms show ?thesis
    by (auto simp: parse_close_bracket_def bracket_state_def)
qed

lemma consume_not_kinds:
  "excess_close (token_kinds (snd (consume_consecutive_not_token_loop lx u))) d
     = excess_close (token_kinds lx) d
   \<and> (list_all plain_token (token_kinds lx) \<longrightarrow>
        list_all plain_token (token_kinds (snd (consume_consecutive_not_token_loop lx u))))"
  by (induction lx arbitrary: u) (auto simp: token_kinds_def)

lemma discard_kinds:
  "excess_close (token_kinds (discard_consecutive_binary_operator_tokens lx)) d
     = excess_close (token_kinds lx) d
   \<and> (list_all plain_token (token_kinds lx) \<longrightarrow>
        list_all plain_token (token_kinds (discard_consecutive_binary_operator_tokens lx)))"
  by (induction lx) (auto simp: token_kinds_def is_binary_operator_token_def)

lemma excess_close_aborts:
  assumes "excess_close (token_kinds (lexer parse_ctx)) d"
      and "list_all plain_token (token_kinds (lexer parse_ctx))"
      and "bracket_state parse_ctx d"
      and "no = nc + of_nat d"
  shows "\<exists>ctx'. parse_expression_loop ext parse_ctx False flags res no nc
                 = Some (Inr ([NodeMatchNothing], ctx'))"
  using assms
proof (induction "length (lexer parse_ctx)" arbitrary: parse_ctx d res no nc rule: less_induct)
  case less
  from less.prems(1) obtain t rest where Cons: "lexer parse_ctx = t # rest"
    by (cases "lexer parse_ctx") (auto simp: token_kinds_def)
  obtain token v where t: "t = (token, v)" by (cases t)
  note lex = Cons [unfolded t]
  have plain: "plain_token token" "list_all plain_token (token_kinds rest)"
    using less.prems(2) lex by (simp_all add: token_kinds_def)
  have step: "\<exists>ctx'. parse_expression_loop ext ctx2 False flags res' no' nc'
                 = Some (Inr ([NodeMatchNothing], ctx'))"
    if "length (lexer ctx2) \<le> length rest" "excess_close (token_kinds (lexer ctx2)) d'"
       "list_all plain_token (token_kinds (lexer ctx2))" "bracket_state ctx2 d'"
       "no' = nc' + of_nat d'"
    for ctx2 d' res' no' nc'
    using that lex by (intro less.hyps) simp_all
  have b0: "bracket_state (parse_ctx\<lparr>lexer := rest\<rparr>) d"
    using less.prems(3) by (simp add: bracket_state_def)
  have same_excess: "excess_close (token_kinds rest) d"
    if "token \<noteq> FSEARCH_QUERY_TOKEN_BRACKET_OPEN" "token \<noteq> FSEARCH_QUERY_TOKEN_BRACKET_CLOSE"
    using less.prems(1) lex that by (simp add: token_kinds_def)
  have and_or: ?case if tok: "token = FSEARCH_QUERY_TOKEN_AND \<or> token = FSEARCH_QUERY_TOKEN_OR"
  proof -
    obtain ta ctx1 where sw: "switch_and_or (parse_ctx\<lparr>lexer := rest\<rparr>) token = (ta, ctx1)"
      by fastforce
    obtain res' ctx2 where ap:
      "append_parsed ctx1 (last_token parse_ctx) token False ta res = (res', ctx2)"
      by fastforce
    have l2: "lexer ctx2 = rest"
      using switch_and_or_same [OF sw] append_parsed_same [OF ap] by (simp add: same_input_def)
    have b2: "bracket_state ctx2 d"
      by (rule append_parsed_brackets [OF ap switch_and_or_brackets [OF tok sw b0]])
    have "excess_close (token_kinds rest) d" using tok by (intro same_excess) auto
    with step [of ctx2 d no nc res'] l2 b2 plain(2) less.prems(4) show ?thesis
      by (simp add: parse_expression_loop_and_or [OF lex tok] sw ap)
  qed
  have other: ?case
    if tok: "token \<in> {FSEARCH_QUERY_TOKEN_NONE, FSEARCH_QUERY_TOKEN_EQUAL,
       FSEARCH_QUERY_TOKEN_SMALLER, FSEARCH_QUERY_TOKEN_SMALLER_EQ, FSEARCH_QUERY_TOKEN_GREATER,
       FSEARCH_QUERY_TOKEN_GREATER_EQ}"
  proof -
    have "excess_close (token_kinds rest) d" using tok by (intro same_excess) auto
    with step [of "parse_ctx\<lparr>lexer := rest\<rparr>" d no nc res] b0 plain(2) less.prems(4) show ?thesis
      by (simp add: parse_expression_loop_other [OF lex tok])
  qed
  show ?case
  proof (cases token)
    case FSEARCH_QUERY_TOKEN_NONE
    then show ?thesis by (intro other) simp
  next
    case FSEARCH_QUERY_TOKEN_EOS
    with plain(1) show ?thesis by (simp add: plain_token_def)
  next
    case FSEARCH_QUERY_TOKEN_WORD
    obtain res' ctx2 where ap:
      "append_parsed (parse_ctx\<lparr>lexer := rest\<rparr>) (last_token parse_ctx) FSEARCH_QUERY_TOKEN_WORD
         False [NodeWord v flags] res = (res', ctx2)"
      by fastforce
    have l2: "lexer ctx2 = rest"
      using append_parsed_same [OF ap] by (simp add: same_input_def)
    have b2: "bracket_state ctx2 d"
      by (rule append_parsed_brackets [OF ap b0])
    have "excess_close (token_kinds rest) d"
      using FSEARCH_QUERY_TOKEN_WORD by (intro same_excess) auto
    with step [of ctx2 d no nc res'] l2 b2 plain(2) less.prems(4) show ?thesis
      by (simp add: parse_expression_loop_word [OF lex [unfolded FSEARCH_QUERY_TOKEN_WORD]] ap)
  next
    case FSEARCH_QUERY_TOKEN_FIELD
    with plain(1) show ?thesis by (simp add: plain_token_def)
  next
    case FSEARCH_QUERY_TOKEN_FIELD_EMPTY
    with plain(1) show ?thesis by (simp add: plain_token_def)
  next
    case FSEARCH_QUERY_TOKEN_AND
    then show ?thesis by (intro and_or) simp
  next
    case FSEARCH_QUERY_TOKEN_OR
    then show ?thesis by (intro and_or) simp
  next
    case FSEARCH_QUERY_TOKEN_NOT
    obtain ta ctx1 skip where sw:
      "switch_not (parse_ctx\<lparr>lexer := rest\<rparr>) (last_token parse_ctx) = (ta, ctx1, skip)"
      by (metis prod_cases3)
    obtain res' ctx2 where ap:
      "append_parsed ctx1 (last_token parse_ctx) FSEARCH_QUERY_TOKEN_NOT skip ta res = (res', ctx2)"
      by fastforce
    have l2: "lexer ctx2 = snd (consume_consecutive_not_token_loop rest True)"
      using switch_not_brackets [OF sw b0] append_parsed_same [OF ap] by (simp add: same_input_def)
    have b2: "bracket_state ctx2 d"
      using switch_not_brackets [OF sw b0] by (intro append_parsed_brackets [OF ap]) simp
    have "excess_close (token_kinds rest) d"
      using FSEARCH_QUERY_TOKEN_NOT by (intro same_excess) auto
    with step [of ctx2 d no nc res'] l2 b2 plain(2) less.prems(4)
      consume_not_kinds [of rest True d] consume_not_length [of rest True]
    show ?thesis
      by (simp add: parse_expression_loop_not [OF lex [unfolded FSEARCH_QUERY_TOKEN_NOT]] sw ap)
  next
    case FSEARCH_QUERY_TOKEN_BRACKET_OPEN
    obtain ta ctx1 where sw: "switch_bracket_open (parse_ctx\<lparr>lexer := rest\<rparr>) = (ta, ctx1)"
      by fastforce
    obtain res' ctx2 where ap:
      "append_parsed ctx1 (last_token parse_ctx) FSEARCH_QUERY_TOKEN_BRACKET_OPEN False ta res
         = (res', ctx2)"
      by fastforce
    have l2: "lexer ctx2 = discard_consecutive_binary_operator_tokens rest"
      using switch_bracket_open_brackets [OF sw b0] append_parsed_same [OF ap]
      by (simp add: same_input_def)
    have b2: "bracket_state ctx2 (Suc d)"
      using switch_bracket_open_brackets [OF sw b0] by (intro append_parsed_brackets [OF ap]) simp
    have "excess_close (token_kinds rest) (Suc d)"
      using less.prems(1) lex FSEARCH_QUERY_TOKEN_BRACKET_OPEN by (simp add: token_kinds_def)
    with step [of ctx2 "Suc d" "no + 1" nc res'] l2 b2 plain(2) less.prems(4)
      discard_kinds [of rest "Suc d"] discard_length [of rest]
    show ?thesis
      by (simp add: parse_expression_loop_bracket_open
            [OF lex [unfolded FSEARCH_QUERY_TOKEN_BRACKET_OPEN]] sw ap)
  next
    case FSEARCH_QUERY_TOKEN_BRACKET_CLOSE
    note eq = parse_expression_loop_bracket_close [OF lex [unfolded FSEARCH_QUERY_TOKEN_BRACKET_CLOSE]]
    show ?thesis
    proof (cases "no > nc")
      case False
      then show ?thesis by (simp add: eq)
    next
      case True
      have "d \<noteq> 0"
      proof
        assume "d = 0"
        with True less.prems(4) show False by simp
      qed
      then obtain d' where d: "d = Suc d'" by (cases d) auto
      have ex: "excess_close (token_kinds rest) d'"
        using less.prems(1) lex FSEARCH_QUERY_TOKEN_BRACKET_CLOSE d by (simp add: token_kinds_def)
      from parse_close_bracket_brackets [OF b0 [unfolded d]] obtain ta ctx1 where
        cb: "parse_close_bracket (parse_ctx\<lparr>lexer := rest\<rparr>) = Inr (ta, ctx1)"
          "bracket_state ctx1 d'" "lexer ctx1 = rest"
        by auto
      obtain res' ctx2 where ap:
        "append_parsed ctx1 (last_token parse_ctx) FSEARCH_QUERY_TOKEN_BRACKET_CLOSE False ta res
           = (res', ctx2)"
        by fastforce
      have l2: "lexer ctx2 = rest"
        using cb(3) append_parsed_same [OF ap] by (simp add: same_input_def)
      have b2: "bracket_state ctx2 d'"
        by (rule append_parsed_brackets [OF ap cb(2)])
      have "no = nc + 1 + of_nat d'" using less.prems(4) d by simp
      with step [of ctx2 d' no "nc + 1" res'] l2 b2 plain(2) ex True cb(1) ap show ?thesis
        by (simp add: eq)
    qed
  next
    case FSEARCH_QUERY_TOKEN_EQUAL
    then show ?thesis by (intro other) simp
  next
    case FSEARCH_QUERY_TOKEN_SMALLER
    then show ?thesis by (intro other) simp
  next
    case FSEARCH_QUERY_TOKEN_SMALLER_EQ
    then show ?thesis by (intro other) simp
  next
    case FSEARCH_QUERY_TOKEN_GREATER
    then show ?thesis by (intro other) simp
  next
    case FSEARCH_QUERY_TOKEN_GREATER_EQ
    then show ?thesis by (intro other) simp
  qed
qed

text \<open>
  The scan of a stream for an unmatched closing bracket follows the parser: what the
  functions of a field read of the stream.
\<close>

lemma unmatched_plain:
  "list_all plain_token (token_kinds lx) \<Longrightarrow>
   unmatched_close lx No_Argument d = excess_close (token_kinds lx) d"
  by (induction lx arbitrary: d) (auto simp: token_kinds_def plain_token_def)

lemma consume_not_unmatched:
  "unmatched_close (snd (consume_consecutive_not_token_loop lx u)) No_Argument d
     = unmatched_close lx No_Argument d"
  by (induction lx arbitrary: u) auto

lemma discard_unmatched:
  "unmatched_close (discard_consecutive_binary_operator_tokens lx) No_Argument d
     = unmatched_close lx No_Argument d"
  by (induction lx) (auto simp: is_binary_operator_token_def)

lemma consume_not_all:
  "list_all P lx \<Longrightarrow> list_all P (snd (consume_consecutive_not_token_loop lx u))"
  by (induction lx arbitrary: u) auto

lemma discard_all:
  "list_all P lx \<Longrightarrow> list_all P (discard_consecutive_binary_operator_tokens lx)"
  by (induction lx) auto

lemma scan_state_nonempty: "scan_state ext parse_ctx a d \<Longrightarrow> lexer parse_ctx \<noteq> []"
  by (auto simp: scan_state_def)

lemma bracket_state_lexer [simp]:
  "bracket_state (parse_ctx\<lparr>lexer := lx\<rparr>) d = bracket_state parse_ctx d"
  by (simp add: bracket_state_def)

lemma scan_state_lexer:
  "scan_state ext (parse_ctx\<lparr>lexer := lx\<rparr>) a d \<longleftrightarrow>
     unmatched_close lx a d \<and> list_all (loop_token ext (macro_filters parse_ctx)) lx
     \<and> bracket_state parse_ctx d \<and> length lx < 2 ^ 32"
  by (simp add: scan_state_def bracket_state_def)

lemma scan_state_same:
  "same_input ctx' parse_ctx \<Longrightarrow> bracket_state ctx' d' \<Longrightarrow>
   unmatched_close (lexer parse_ctx) a' d' \<Longrightarrow> scan_state ext parse_ctx a d \<Longrightarrow>
   scan_state ext ctx' a' d'"
  by (simp add: scan_state_def same_input_def)

lemma numeric_value_scans:
  assumes "parse_numeric_function_value parse_ctx flags n p c = (r, ctx')"
      and "scan_state ext parse_ctx Word_Argument d"
  shows "scan_state ext ctx' No_Argument d \<and> length (lexer ctx') \<le> length (lexer parse_ctx)"
proof -
  from assms(2) obtain t rest where lex: "lexer parse_ctx = t # rest"
    by (cases "lexer parse_ctx") (auto simp: scan_state_def)
  obtain tk v where t: "t = (tk, v)" by (cases t)
  have "ctx' = parse_ctx\<lparr>lexer := rest\<rparr>"
    using assms(1) lex t
    by (auto simp: parse_numeric_function_value_def expect_word_def split: if_splits option.splits)
  with assms(2) lex show ?thesis
    by (auto simp: scan_state_def)
qed

lemma numeric_function_scans:
  assumes "parse_numeric_function parse_ctx e flags n p = (r, ctx')"
      and "scan_state ext parse_ctx (if e then No_Argument else Numeric_Argument) d"
  shows "scan_state ext ctx' No_Argument d \<and> length (lexer ctx') \<le> length (lexer parse_ctx)"
proof (cases e)
  case True
  with assms show ?thesis by (auto simp: parse_numeric_function_def)
next
  case False
  from assms(2) obtain t rest where lex: "lexer parse_ctx = t # rest"
    by (cases "lexer parse_ctx") (auto simp: scan_state_def)
  obtain tk v where t: "t = (tk, v)" by (cases t)
  let ?ctx1 = "parse_ctx\<lparr>lexer := rest\<rparr>"
  have s1: "scan_state ext ?ctx1 (if comparison_token tk then Word_Argument else No_Argument) d"
    using assms(2) False lex t by (auto simp: scan_state_def)
  show ?thesis
  proof (cases "comparison_token tk")
    case True
    then obtain cmp where "parse_numeric_function_value ?ctx1 flags n p cmp = (r, ctx')"
      using assms(1) False lex t
      by (auto simp: parse_numeric_function_def comparison_token_def)
    from numeric_value_scans [OF this, of ext d] s1 True lex show ?thesis by auto
  next
    case no: False
    then have "ctx' = ?ctx1"
      using assms(1) False lex t
      by (cases tk) (auto simp: parse_numeric_function_def comparison_token_def)
    with s1 no lex show ?thesis by simp
  qed
qed

lemma word_function_scans:
  assumes "expect_word (lexer parse_ctx) = ((w, v), lx)"
      and "scan_state ext parse_ctx Word_Argument d"
  shows "scan_state ext (parse_ctx\<lparr>lexer := lx\<rparr>) No_Argument d \<and> length lx \<le> length (lexer parse_ctx)"
proof -
  from assms(2) obtain t rest where lex: "lexer parse_ctx = t # rest"
    by (cases "lexer parse_ctx") (auto simp: scan_state_def)
  with assms(1) have "lx = rest" by (auto simp: expect_word_def split: prod.splits)
  with assms(2) lex show ?thesis
    by (cases t) (auto simp: scan_state_def)
qed

lemma find_SomeD: "find P xs = Some x \<Longrightarrow> x \<in> set xs \<and> P x"
  by (induction xs) (auto split: if_splits)

lemma numeric_argument:
  assumes "find (\<lambda>modifier. fst modifier = name) supported_modifiers = None"
      and "name \<in> set numeric_function_names"
  shows "field_argument name = Numeric_Argument"
proof -
  from assms(1) have "name \<notin> set (map fst supported_modifiers)"
    by (auto simp: find_None_iff)
  with assms(2) show ?thesis by (simp add: field_argument_def)
qed

lemma word_argument:
  assumes "find (\<lambda>modifier. fst modifier = name) supported_modifiers = None"
      and "name \<in> set word_function_names"
  shows "field_argument name = Word_Argument"
proof -
  from assms(1) have "name \<notin> set (map fst supported_modifiers)"
    by (auto simp: find_None_iff)
  moreover from assms(2) have "name \<notin> set numeric_function_names"
    by (auto simp: word_function_names_def numeric_function_names_def)
  ultimately show ?thesis using assms(2) by (simp add: field_argument_def)
qed

lemma no_argument:
  assumes "find (\<lambda>modifier. fst modifier = name) supported_modifiers = None"
      and "name \<notin> set numeric_function_names" and "name \<notin> set word_function_names"
  shows "field_argument name = No_Argument"
proof -
  from assms(1) have "name \<notin> set (map fst supported_modifiers)"
    by (auto simp: find_None_iff)
  with assms(2,3) show ?thesis by (simp add: field_argument_def)
qed

lemma string_function_scans:
  assumes "scan_state ext parse_ctx (if e then No_Argument else Word_Argument) d"
      and "(if e then (r0, parse_ctx)
            else (case expect_word (lexer parse_ctx) of
                    ((is_word, token_value), lx) \<Rightarrow>
                      (if is_word then (g token_value, parse_ctx\<lparr>lexer := lx\<rparr>)
                       else (r1, parse_ctx\<lparr>lexer := lx\<rparr>)))) = (r, ctx')"
  shows "scan_state ext ctx' No_Argument d \<and> length (lexer ctx') \<le> length (lexer parse_ctx)"
proof (cases e)
  case True
  with assms show ?thesis by auto
next
  case False
  obtain w v lx where ew: "expect_word (lexer parse_ctx) = ((w, v), lx)"
    by (metis surj_pair)
  from word_function_scans [OF ew, of ext d] assms False ew show ?thesis
    by (auto split: if_splits)
qed

lemma function_scans:
  assumes found: "find (\<lambda>function. fst function = name) supported_functions = Some (n, f)"
      and no_modifier: "find (\<lambda>modifier. fst modifier = name) supported_modifiers = None"
      and run: "f ext' parse_ctx e flags = (r, ctx')"
      and state: "scan_state ext parse_ctx (if e then No_Argument else field_argument name) d"
  shows "scan_state ext ctx' No_Argument d \<and> length (lexer ctx') \<le> length (lexer parse_ctx)"
proof -
  from found have "(name, f) \<in> set supported_functions"
    by (auto dest: find_SomeD)
  then consider
      (childcount) "name = ''childcount''" "f = parse_function_childcount"
    | (childfilecount) "name = ''childfilecount''" "f = parse_function_childfilecount"
    | (childfoldercount) "name = ''childfoldercount''" "f = parse_function_childfoldercount"
    | (contenttype) "name = ''contenttype''" "f = parse_function_contenttype"
    | (depth) "name = ''depth''" "f = parse_function_depth"
    | (dm) "name = ''dm''" "f = parse_function_date_modified"
    | (datemodified) "name = ''datemodified''" "f = parse_function_date_modified"
    | (empty) "name = ''empty''" "f = parse_function_empty"
    | (ext) "name = ''ext''" "f = parse_function_extension"
    | (parent) "name = ''parent''" "f = parse_function_parent"
    | (parents) "name = ''parents''" "f = parse_function_depth"
    | (size) "name = ''size''" "f = parse_function_size"
    unfolding supported_functions_def
    apply (simp only: list.set insert_iff empty_iff prod.inject)
    apply (elim disjE conjE)
    apply (erule (1) meta_mp [rotated 1, OF _ _] | assumption | fast)+
    done
  then show ?thesis
  proof cases
    case childcount
    then have fa: "field_argument name = Numeric_Argument"
      by (intro numeric_argument [OF no_modifier]) (simp add: numeric_function_names_def)
    from run childcount have num: "parse_numeric_function parse_ctx e flags NodeChildCount parse_integer = (r, ctx')"
      by (simp add: parse_function_childcount_def)
    from state have "scan_state ext parse_ctx (if e then No_Argument else Numeric_Argument) d"
      by (cases e) (simp_all add: fa)
    from numeric_function_scans [OF num this] show ?thesis .
  next
    case childfilecount
    then have fa: "field_argument name = Numeric_Argument"
      by (intro numeric_argument [OF no_modifier]) (simp add: numeric_function_names_def)
    from run childfilecount have num: "parse_numeric_function parse_ctx e flags NodeChildFileCount parse_integer = (r, ctx')"
      by (simp add: parse_function_childfilecount_def)
    from state have "scan_state ext parse_ctx (if e then No_Argument else Numeric_Argument) d"
      by (cases e) (simp_all add: fa)
    from numeric_function_scans [OF num this] show ?thesis .
  next
    case childfoldercount
    then have fa: "field_argument name = Numeric_Argument"
      by (intro numeric_argument [OF no_modifier]) (simp add: numeric_function_names_def)
    from run childfoldercount have num: "parse_numeric_function parse_ctx e flags NodeChildFolderCount parse_integer = (r, ctx')"
      by (simp add: parse_function_childfoldercount_def)
    from state have "scan_state ext parse_ctx (if e then No_Argument else Numeric_Argument) d"
      by (cases e) (simp_all add: fa)
    from numeric_function_scans [OF num this] show ?thesis .
  next
    case contenttype
    then have fa: "field_argument name = Word_Argument"
      by (intro word_argument [OF no_modifier]) (simp add: word_function_names_def)
    from state have "scan_state ext parse_ctx (if e then No_Argument else Word_Argument) d"
      by (cases e) (simp_all add: fa)
    from string_function_scans [OF this] run contenttype show ?thesis
      by (simp add: parse_function_contenttype_def Let_def)
  next
    case depth
    then have fa: "field_argument name = Numeric_Argument"
      by (intro numeric_argument [OF no_modifier]) (simp add: numeric_function_names_def)
    from run depth have num: "parse_numeric_function parse_ctx e flags NodeDepth parse_integer = (r, ctx')"
      by (simp add: parse_function_depth_def)
    from state have "scan_state ext parse_ctx (if e then No_Argument else Numeric_Argument) d"
      by (cases e) (simp_all add: fa)
    from numeric_function_scans [OF num this] show ?thesis .
  next
    case dm
    then have fa: "field_argument name = Numeric_Argument"
      by (intro numeric_argument [OF no_modifier]) (simp add: numeric_function_names_def)
    from run dm have num: "parse_numeric_function parse_ctx e flags NodeDateModified (fsearch_date_time_parse_interval ext') = (r, ctx')"
      by (simp add: parse_function_date_modified_def)
    from state have "scan_state ext parse_ctx (if e then No_Argument else Numeric_Argument) d"
      by (cases e) (simp_all add: fa)
    from numeric_function_scans [OF num this] show ?thesis .
  next
    case datemodified
    then have fa: "field_argument name = Numeric_Argument"
      by (intro numeric_argument [OF no_modifier]) (simp add: numeric_function_names_def)
    from run datemodified have num: "parse_numeric_function parse_ctx e flags NodeDateModified (fsearch_date_time_parse_interval ext') = (r, ctx')"
      by (simp add: parse_function_date_modified_def)
    from state have "scan_state ext parse_ctx (if e then No_Argument else Numeric_Argument) d"
      by (cases e) (simp_all add: fa)
    from numeric_function_scans [OF num this] show ?thesis .
  next
    case empty
    then have fa: "field_argument name = No_Argument"
      by (intro no_argument [OF no_modifier])
         (simp_all add: numeric_function_names_def word_function_names_def)
    from state have "scan_state ext parse_ctx No_Argument d"
      by (cases e) (simp_all add: fa)
    with empty run show ?thesis
      by (auto simp: parse_function_empty_def)
  next
    case ext
    then have fa: "field_argument name = Word_Argument"
      by (intro word_argument [OF no_modifier]) (simp add: word_function_names_def)
    from state have "scan_state ext parse_ctx (if e then No_Argument else Word_Argument) d"
      by (cases e) (simp_all add: fa)
    from string_function_scans [OF this] run ext show ?thesis
      by (simp add: parse_function_extension_def Let_def)
  next
    case parent
    then have fa: "field_argument name = Word_Argument"
      by (intro word_argument [OF no_modifier]) (simp add: word_function_names_def)
    from state have "scan_state ext parse_ctx (if e then No_Argument else Word_Argument) d"
      by (cases e) (simp_all add: fa)
    from string_function_scans [OF this] run parent show ?thesis
      by (simp add: parse_function_parent_def Let_def)
  next
    case parents
    then have fa: "field_argument name = Numeric_Argument"
      by (intro numeric_argument [OF no_modifier]) (simp add: numeric_function_names_def)
    from run parents have num: "parse_numeric_function parse_ctx e flags NodeDepth parse_integer = (r, ctx')"
      by (simp add: parse_function_depth_def)
    from state have "scan_state ext parse_ctx (if e then No_Argument else Numeric_Argument) d"
      by (cases e) (simp_all add: fa)
    from numeric_function_scans [OF num this] show ?thesis .
  next
    case size
    then have fa: "field_argument name = Numeric_Argument"
      by (intro numeric_argument [OF no_modifier]) (simp add: numeric_function_names_def)
    from run size have num: "parse_numeric_function parse_ctx e flags NodeSize (fsearch_size_parse ext') = (r, ctx')"
      by (simp add: parse_function_size_def)
    from state have "scan_state ext parse_ctx (if e then No_Argument else Numeric_Argument) d"
      by (cases e) (simp_all add: fa)
    from numeric_function_scans [OF num this] show ?thesis .
  qed
qed

lemma unknown_field_argument:
  assumes "find (\<lambda>function. fst function = name) supported_functions = None"
      and "find (\<lambda>modifier. fst modifier = name) supported_modifiers = None"
  shows "field_argument name = No_Argument"
proof -
  from assms(1) have "name \<notin> fst ` set supported_functions"
    by (auto simp: find_None_iff)
  then have "name \<notin> set numeric_function_names" "name \<notin> set word_function_names"
    by (auto simp: supported_functions_def numeric_function_names_def word_function_names_def)
  then show ?thesis by (intro no_argument [OF assms(2)])
qed

lemma modifier_field_argument:
  assumes "find (\<lambda>modifier. fst modifier = name) supported_modifiers = Some m"
  shows "field_argument name = Modifier_Argument"
proof -
  from assms have "m \<in> set supported_modifiers" "fst m = name"
    by (auto dest: find_SomeD)
  then have "name \<in> set (map fst supported_modifiers)" by force
  then show ?thesis by (simp add: field_argument_def)
qed

lemma counters_open:
  fixes no nc :: "32 word"
  assumes "no = nc + of_nat k" and "1 \<le> k" and "unat nc + k < 2 ^ 32"
  shows "nc < no"
proof -
  have k: "unat (of_nat k :: 32 word) = k"
    using assms(3) by (simp add: unat_of_nat)
  have "unat (nc + of_nat k) = unat nc + unat (of_nat k :: 32 word)"
    using assms(3) k by (simp add: unat_add_lem [THEN iffD1])
  with k assms show ?thesis by (simp add: word_less_nat_alt)
qed

lemma counters_last:
  fixes no nc :: "32 word"
  assumes "no = nc + of_nat k" and "unat nc + k < 2 ^ 32" and "nc + 1 = no"
  shows "k = 1"
proof -
  have k: "unat (of_nat k :: 32 word) = k"
    using assms(2) by (simp add: unat_of_nat)
  from assms(1,3) have "(of_nat k :: 32 word) = 1" by simp
  then have "unat (of_nat k :: 32 word) = 1" by simp
  with k show ?thesis by simp
qed

lemma counters_next:
  fixes nc :: "32 word"
  shows "unat (nc + 1) \<le> unat nc + 1"
proof -
  have "unat (nc + 1) = (unat nc + unat (1 :: 32 word)) mod 2 ^ 32"
    by (simp add: unat_word_ariths)
  also have "\<dots> \<le> unat nc + unat (1 :: 32 word)" by (rule mod_less_eq_dividend)
  finally show ?thesis by simp
qed

lemma loop_step_scans:
  assumes ih: "\<forall>call'. scan_measure call' < scan_measure call \<longrightarrow> call_scans ext call'"
      and call: "call = Call_parse_expression_loop parse_ctx b flags res no nc"
      and lex: "lexer parse_ctx = t # rest"
      and eq: "parser ext call = parser ext (Call_parse_expression_loop ctx2 b flags res' no' nc')"
      and len: "length (lexer ctx2) \<le> length rest"
      and st: "scan_state ext ctx2 No_Argument (d + k')"
      and cnt: "no' = nc' + of_nat k'"
      and bnd: "if b then 1 \<le> k' \<and> unat nc' + k' + length (lexer ctx2) < 2 ^ 32 else d = 0"
  shows "if b then returns_scanning ext call d
         else (\<exists>ctx'. parser ext call = Some (Inr ([NodeMatchNothing], ctx')))"
proof -
  let ?c = "Call_parse_expression_loop ctx2 b flags res' no' nc'"
  have "scan_measure ?c < scan_measure call"
    using len lex by (simp add: scan_measure_def call)
  with ih have "call_scans ext ?c" by blast
  from this [unfolded call_scans.simps, rule_format, where d = d and k = k',
      OF conjI [OF cnt conjI [OF st bnd]]]
  have *: "if b then returns_scanning ext ?c d
      else (\<exists>ctx'. parser ext ?c = Some (Inr ([NodeMatchNothing], ctx')))" .
  show ?thesis
  proof (cases b)
    case True
    with * len lex show ?thesis
      unfolding eq returns_scanning_def by (auto simp: call)
  next
    case False
    with * show ?thesis by (simp add: eq)
  qed
qed

lemma loop_scans:
  assumes ih: "\<forall>call'. scan_measure call' < scan_measure call \<longrightarrow> call_scans ext call'"
      and call: "call = Call_parse_expression_loop parse_ctx b flags res no nc"
  shows "call_scans ext call"
proof -
  have "if b then returns_scanning ext call d
        else (\<exists>ctx'. parser ext call = Some (Inr ([NodeMatchNothing], ctx')))"
    if cnt: "no = nc + of_nat k"
      and st: "scan_state ext parse_ctx No_Argument (d + k)"
      and bnd: "if b then 1 \<le> k \<and> unat nc + k + length (lexer parse_ctx) < 2 ^ 32 else d = 0"
    for d k
  proof -
    from st obtain t rest where Cons: "lexer parse_ctx = t # rest"
      by (cases "lexer parse_ctx") (auto simp: scan_state_def)
    obtain token v where t: "t = (token, v)" by (cases t)
    note lex = Cons [unfolded t]
    note step = loop_step_scans [OF ih call Cons]
    from st lex have unmatched: "unmatched_close ((token, v) # rest) No_Argument (d + k)"
      and tok: "loop_token ext (macro_filters parse_ctx) (token, v)"
      and toks: "list_all (loop_token ext (macro_filters parse_ctx)) rest"
      and b0: "bracket_state (parse_ctx\<lparr>lexer := rest\<rparr>) (d + k)"
      and short: "length rest < 2 ^ 32"
      by (simp_all add: scan_state_def del: unmatched_close.simps)
    have bnd': "if b then 1 \<le> k \<and> unat nc + k + length lx < 2 ^ 32 else d = 0"
      if "length lx \<le> length rest" for lx
      using bnd that lex by (auto split: if_splits)
    have state: "scan_state ext ctx2 No_Argument (d + k)"
      if "same_input ctx2 (parse_ctx\<lparr>lexer := lx\<rparr>)" "bracket_state ctx2 (d + k)"
         "unmatched_close lx No_Argument (d + k)"
         "list_all (loop_token ext (macro_filters parse_ctx)) lx" "length lx \<le> length rest"
      for ctx2 lx
      using that short by (simp add: scan_state_def same_input_def)
    have plain: ?thesis
      if eq: "parser ext call = parser ext (Call_parse_expression_loop ctx2 b flags res' no nc)"
        and same: "same_input ctx2 (parse_ctx\<lparr>lexer := lx\<rparr>)"
        and br: "bracket_state ctx2 (d + k)"
        and un: "unmatched_close lx No_Argument (d + k)"
        and ok: "list_all (loop_token ext (macro_filters parse_ctx)) lx"
        and len: "length lx \<le> length rest"
      for ctx2 res' lx
    proof (rule step [OF eq _ state [OF same br un ok len] cnt])
      show "length (lexer ctx2) \<le> length rest"
        using same len by (simp add: same_input_def)
      show "if b then 1 \<le> k \<and> unat nc + k + length (lexer ctx2) < 2 ^ 32 else d = 0"
        using bnd' [OF len] same by (auto simp: same_input_def split: if_splits)
    qed
    have unmatched_rest: "unmatched_close rest No_Argument (d + k)"
      if "token \<noteq> FSEARCH_QUERY_TOKEN_BRACKET_OPEN" "token \<noteq> FSEARCH_QUERY_TOKEN_BRACKET_CLOSE"
         "token \<noteq> FSEARCH_QUERY_TOKEN_FIELD"
      using unmatched that by simp
    have and_or: ?thesis if tk: "token = FSEARCH_QUERY_TOKEN_AND \<or> token = FSEARCH_QUERY_TOKEN_OR"
    proof -
      obtain ta ctx1 where sw: "switch_and_or (parse_ctx\<lparr>lexer := rest\<rparr>) token = (ta, ctx1)"
        by fastforce
      obtain res' ctx2 where ap:
        "append_parsed ctx1 (last_token parse_ctx) token False ta res = (res', ctx2)"
        by fastforce
      have same: "same_input ctx2 (parse_ctx\<lparr>lexer := rest\<rparr>)"
        using switch_and_or_same [OF sw] append_parsed_same [OF ap] by (simp add: same_input_def)
      have br: "bracket_state ctx2 (d + k)"
        by (rule append_parsed_brackets [OF ap switch_and_or_brackets [OF tk sw b0]])
      have un: "unmatched_close rest No_Argument (d + k)"
        using tk by (intro unmatched_rest) auto
      show ?thesis
        by (rule plain [OF _ same br un toks]) (simp_all add: call loop_and_or [OF lex tk] sw ap)
    qed
    have other: ?thesis
      if tk: "token \<in> {FSEARCH_QUERY_TOKEN_NONE, FSEARCH_QUERY_TOKEN_EQUAL,
         FSEARCH_QUERY_TOKEN_SMALLER, FSEARCH_QUERY_TOKEN_SMALLER_EQ, FSEARCH_QUERY_TOKEN_GREATER,
         FSEARCH_QUERY_TOKEN_GREATER_EQ}"
    proof -
      have un: "unmatched_close rest No_Argument (d + k)"
        using tk by (intro unmatched_rest) auto
      show ?thesis
        by (rule plain [OF _ same_input_refl b0 un toks])
           (simp_all add: call loop_other [OF lex tk])
    qed
    have field: ?thesis
      if tk: "token = FSEARCH_QUERY_TOKEN_FIELD \<or> token = FSEARCH_QUERY_TOKEN_FIELD_EMPTY"
    proof -
      let ?e = "token = FSEARCH_QUERY_TOKEN_FIELD_EMPTY"
      let ?c1 = "Call_parse_field (parse_ctx\<lparr>lexer := rest\<rparr>) v ?e flags"
      have "scan_measure ?c1 < scan_measure call"
        using lex by (simp add: scan_measure_def call)
      with ih have "call_scans ext ?c1" by blast
      moreover have "scan_state ext (parse_ctx\<lparr>lexer := rest\<rparr>)
          (if ?e then No_Argument else field_argument v) (d + k)"
        using unmatched tk toks b0 short by (auto simp: scan_state_def)
      moreover have "loop_token ext (macro_filters (parse_ctx\<lparr>lexer := rest\<rparr>))
          (if ?e then FSEARCH_QUERY_TOKEN_FIELD_EMPTY else FSEARCH_QUERY_TOKEN_FIELD, v)"
        using tok tk by auto
      ultimately have "returns_scanning ext ?c1 (d + k)" by simp
      then obtain ta ctx1 where r1: "parser ext ?c1 = Some (Inr (ta, ctx1))"
          and s1: "scan_state ext ctx1 No_Argument (d + k)"
          and l1: "length (lexer ctx1) \<le> length rest"
        by (auto simp: returns_scanning_def)
      obtain res' ctx2 where ap:
        "append_parsed ctx1 (last_token parse_ctx) token False ta res = (res', ctx2)"
        by fastforce
      have same: "same_input ctx2 ctx1" by (rule append_parsed_same [OF ap])
      have br: "bracket_state ctx2 (d + k)"
        using s1 by (intro append_parsed_brackets [OF ap]) (simp add: scan_state_def)
      have s2: "scan_state ext ctx2 No_Argument (d + k)"
        using s1 same br by (simp add: scan_state_def same_input_def)
      show ?thesis
      proof (rule step [OF _ _ s2 cnt])
        show "parser ext call = parser ext (Call_parse_expression_loop ctx2 b flags res' no nc)"
          using r1 by (simp add: call loop_field [OF lex tk] ap)
        show "length (lexer ctx2) \<le> length rest"
          using same l1 by (simp add: same_input_def)
        then show "if b then 1 \<le> k \<and> unat nc + k + length (lexer ctx2) < 2 ^ 32 else d = 0"
          by (rule bnd')
      qed
    qed
    show ?thesis
    proof (cases token)
      case FSEARCH_QUERY_TOKEN_NONE
      then show ?thesis by (intro other) simp
    next
      case FSEARCH_QUERY_TOKEN_EOS
      with tok show ?thesis by (simp add: loop_token_def)
    next
      case FSEARCH_QUERY_TOKEN_WORD
      obtain res' ctx2 where ap:
        "append_parsed (parse_ctx\<lparr>lexer := rest\<rparr>) (last_token parse_ctx) FSEARCH_QUERY_TOKEN_WORD
           False [NodeWord v flags] res = (res', ctx2)"
        by fastforce
      have un: "unmatched_close rest No_Argument (d + k)"
        using FSEARCH_QUERY_TOKEN_WORD by (intro unmatched_rest) auto
      show ?thesis
        by (rule plain [OF _ append_parsed_same [OF ap] append_parsed_brackets [OF ap b0] un toks])
           (simp_all add: call loop_word [OF lex [unfolded FSEARCH_QUERY_TOKEN_WORD]] ap)
    next
      case FSEARCH_QUERY_TOKEN_FIELD
      then show ?thesis by (intro field) simp
    next
      case FSEARCH_QUERY_TOKEN_FIELD_EMPTY
      then show ?thesis by (intro field) simp
    next
      case FSEARCH_QUERY_TOKEN_AND
      then show ?thesis by (intro and_or) simp
    next
      case FSEARCH_QUERY_TOKEN_OR
      then show ?thesis by (intro and_or) simp
    next
      case FSEARCH_QUERY_TOKEN_NOT
      obtain ta ctx1 skip where sw:
        "switch_not (parse_ctx\<lparr>lexer := rest\<rparr>) (last_token parse_ctx) = (ta, ctx1, skip)"
        by (metis prod_cases3)
      obtain res' ctx2 where ap:
        "append_parsed ctx1 (last_token parse_ctx) FSEARCH_QUERY_TOKEN_NOT skip ta res = (res', ctx2)"
        by fastforce
      let ?lx = "snd (consume_consecutive_not_token_loop rest True)"
      have l1: "lexer ctx1 = ?lx" and b1: "bracket_state ctx1 (d + k)"
        using switch_not_brackets [OF sw b0] by simp_all
      have a1: "context_after ctx1 (parse_ctx\<lparr>lexer := rest\<rparr>)" by (rule switch_not_after [OF sw])
      have same: "same_input ctx2 (parse_ctx\<lparr>lexer := ?lx\<rparr>)"
        using append_parsed_same [OF ap] l1 a1 by (simp add: same_input_def context_after_def)
      have br: "bracket_state ctx2 (d + k)" by (rule append_parsed_brackets [OF ap b1])
      have un: "unmatched_close ?lx No_Argument (d + k)"
        using FSEARCH_QUERY_TOKEN_NOT by (simp add: consume_not_unmatched unmatched_rest)
      show ?thesis
        by (rule plain [OF _ same br un consume_not_all [OF toks] consume_not_length])
           (simp_all add: call loop_not [OF lex [unfolded FSEARCH_QUERY_TOKEN_NOT]] sw ap)
    next
      case FSEARCH_QUERY_TOKEN_BRACKET_OPEN
      obtain ta ctx1 where sw: "switch_bracket_open (parse_ctx\<lparr>lexer := rest\<rparr>) = (ta, ctx1)"
        by fastforce
      obtain res' ctx2 where ap:
        "append_parsed ctx1 (last_token parse_ctx) FSEARCH_QUERY_TOKEN_BRACKET_OPEN False ta res
           = (res', ctx2)"
        by fastforce
      let ?lx = "discard_consecutive_binary_operator_tokens rest"
      have l1: "lexer ctx1 = ?lx" and b1: "bracket_state ctx1 (Suc (d + k))"
        using switch_bracket_open_brackets [OF sw b0] by simp_all
      have a1: "context_after ctx1 (parse_ctx\<lparr>lexer := rest\<rparr>)"
        by (rule switch_bracket_open_after [OF sw])
      have same: "same_input ctx2 (parse_ctx\<lparr>lexer := ?lx\<rparr>)"
        using append_parsed_same [OF ap] l1 a1 by (simp add: same_input_def context_after_def)
      have br: "bracket_state ctx2 (d + Suc k)"
        using append_parsed_brackets [OF ap b1] by simp
      have un: "unmatched_close ?lx No_Argument (d + Suc k)"
        using unmatched FSEARCH_QUERY_TOKEN_BRACKET_OPEN by (simp add: discard_unmatched)
      have len: "length ?lx \<le> length rest" by (rule discard_length)
      have s2: "scan_state ext ctx2 No_Argument (d + Suc k)"
        using same br un discard_all [OF toks] len short by (simp add: scan_state_def same_input_def)
      show ?thesis
      proof (rule step [OF _ _ s2])
        show "parser ext call
              = parser ext (Call_parse_expression_loop ctx2 b flags res' (no + 1) nc)"
          by (simp add: call loop_bracket_open [OF lex [unfolded FSEARCH_QUERY_TOKEN_BRACKET_OPEN]]
                sw ap)
        show l2: "length (lexer ctx2) \<le> length rest"
          using same len by (simp add: same_input_def)
        show "no + 1 = nc + of_nat (Suc k)" using cnt by simp
        show "if b then 1 \<le> Suc k \<and> unat nc + Suc k + length (lexer ctx2) < 2 ^ 32 else d = 0"
          using bnd l2 lex by (auto split: if_splits)
      qed
    next
      case FSEARCH_QUERY_TOKEN_BRACKET_CLOSE
      note eq = loop_bracket_close [OF lex [unfolded FSEARCH_QUERY_TOKEN_BRACKET_CLOSE]]
      show ?thesis
      proof (cases "no > nc")
        case False
        have "\<not> b"
        proof
          assume b
          with bnd lex have "1 \<le> k" "unat nc + k < 2 ^ 32" by auto
          from counters_open [OF cnt this] False show False by simp
        qed
        with False show ?thesis by (simp add: call eq)
      next
        case True
        have "k \<noteq> 0"
        proof
          assume "k = 0"
          with True cnt show False by simp
        qed
        then obtain k' where k: "k = Suc k'" by (cases k) auto
        from parse_close_bracket_brackets [of "parse_ctx\<lparr>lexer := rest\<rparr>" "d + k'"] b0 k
        obtain ta ctx1 where
          cb: "parse_close_bracket (parse_ctx\<lparr>lexer := rest\<rparr>) = Inr (ta, ctx1)"
            "bracket_state ctx1 (d + k')" "lexer ctx1 = rest"
          by auto
        have same1: "same_input ctx1 (parse_ctx\<lparr>lexer := rest\<rparr>)"
          by (rule parse_close_bracket_same [OF cb(1)])
        have un: "unmatched_close rest No_Argument (d + k')"
          using unmatched FSEARCH_QUERY_TOKEN_BRACKET_CLOSE k by simp
        show ?thesis
        proof (cases "b \<and> nc + 1 = no")
          case True
          with bnd lex have "unat nc + k < 2 ^ 32" by auto
          from counters_last [OF cnt this] True have "k' = 0" using k by simp
          with un cb(2) same1 toks short have "scan_state ext ctx1 No_Argument d"
            by (simp add: scan_state_def same_input_def)
          with True \<open>no > nc\<close> cb(1,3) lex show ?thesis
            by (simp add: returns_scanning_def call eq)
        next
          case False
          obtain res' ctx2 where ap:
            "append_parsed ctx1 (last_token parse_ctx) FSEARCH_QUERY_TOKEN_BRACKET_CLOSE False ta res
               = (res', ctx2)"
            by fastforce
          have same: "same_input ctx2 (parse_ctx\<lparr>lexer := rest\<rparr>)"
            using same1 append_parsed_same [OF ap] by (simp add: same_input_def)
          have br: "bracket_state ctx2 (d + k')" by (rule append_parsed_brackets [OF ap cb(2)])
          have s2: "scan_state ext ctx2 No_Argument (d + k')"
            using same br un toks short by (simp add: scan_state_def same_input_def)
          show ?thesis
          proof (rule step [OF _ _ s2])
            show "parser ext call
                  = parser ext (Call_parse_expression_loop ctx2 b flags res' no (nc + 1))"
              using False \<open>no > nc\<close> cb(1) ap by (auto simp: call eq)
            show l2: "length (lexer ctx2) \<le> length rest"
              using same by (simp add: same_input_def)
            show "no = nc + 1 + of_nat k'" using cnt k by simp
            show "if b then 1 \<le> k' \<and> unat (nc + 1) + k' + length (lexer ctx2) < 2 ^ 32
                  else d = 0"
            proof (cases b)
              case b: True
              with False have "nc + 1 \<noteq> no" by simp
              have "k' \<noteq> 0"
              proof
                assume "k' = 0"
                with cnt k \<open>nc + 1 \<noteq> no\<close> show False by simp
              qed
              moreover have "unat (nc + 1) + k' + length (lexer ctx2) < 2 ^ 32"
                using bnd b l2 lex k counters_next [of nc] by auto
              ultimately show ?thesis using b by simp
            next
              case False
              with bnd show ?thesis by simp
            qed
          qed
        qed
      qed
    next
      case FSEARCH_QUERY_TOKEN_EQUAL
      then show ?thesis by (intro other) simp
    next
      case FSEARCH_QUERY_TOKEN_SMALLER
      then show ?thesis by (intro other) simp
    next
      case FSEARCH_QUERY_TOKEN_SMALLER_EQ
      then show ?thesis by (intro other) simp
    next
      case FSEARCH_QUERY_TOKEN_GREATER
      then show ?thesis by (intro other) simp
    next
      case FSEARCH_QUERY_TOKEN_GREATER_EQ
      then show ?thesis by (intro other) simp
    qed
  qed
  then show ?thesis
    unfolding call call_scans.simps by blast
qed

lemma returns_scanning_eq:
  assumes "parser ext call = parser ext call'"
      and "returns_scanning ext call' d"
      and "length (lexer (call_context call')) \<le> length (lexer (call_context call))"
  shows "returns_scanning ext call d"
  using assms by (auto simp: returns_scanning_def)

lemma returns_scanning_now:
  assumes "parser ext call = Some (Inr (res, ctx'))"
      and "scan_state ext ctx' No_Argument d"
      and "length (lexer ctx') \<le> length (lexer (call_context call))"
  shows "returns_scanning ext call d"
  using assms by (auto simp: returns_scanning_def)

lemma modifier_scans:
  assumes ih: "\<forall>call'. scan_measure call' < scan_measure call \<longrightarrow> call_scans ext call'"
      and call: "call = Call_parse_modifier parse_ctx e flags"
  shows "call_scans ext call"
proof -
  have "returns_scanning ext call d"
    if st: "scan_state ext parse_ctx (if e then No_Argument else Modifier_Argument) d" for d
  proof (cases e)
    case True
    with st show ?thesis
      by (intro returns_scanning_now [where ctx' = parse_ctx])
         (simp_all add: call modifier_unfold)
  next
    case False
    from st obtain t rest where Cons: "lexer parse_ctx = t # rest"
      by (cases "lexer parse_ctx") (auto simp: scan_state_def)
    obtain token v where t: "t = (token, v)" by (cases t)
    note lex = Cons [unfolded t]
    let ?ctx0 = "parse_ctx\<lparr>lexer := rest\<rparr>"
    from st False lex have unmatched: "unmatched_close ((token, v) # rest) Modifier_Argument d"
      and tok: "loop_token ext (macro_filters parse_ctx) (token, v)"
      and toks: "list_all (loop_token ext (macro_filters parse_ctx)) rest"
      and b0: "bracket_state ?ctx0 d"
      and short: "Suc (length rest) < 2 ^ 32"
      by (simp_all add: scan_state_def del: unmatched_close.simps)
    have s0: "scan_state ext ?ctx0 a d" if "unmatched_close rest a d" for a
      using that toks b0 short by (simp add: scan_state_def)
    have e: "e = False" using False by simp
    note unfold = modifier_unfold [of ext parse_ctx False flags, unfolded lex, simplified]
    show ?thesis
    proof (cases "token = FSEARCH_QUERY_TOKEN_WORD")
      case True
      with unmatched have "unmatched_close rest No_Argument d" by simp
      from s0 [OF this] show ?thesis
        by (rule returns_scanning_now [rotated 1]) (simp_all add: call e unfold True lex)
    next
      case not_word: False
      show ?thesis
      proof (cases "token = FSEARCH_QUERY_TOKEN_BRACKET_OPEN")
        case True
        obtain ta ctx1 where ob: "parse_open_bracket ?ctx0 = (ta, ctx1)" by fastforce
        have same: "same_input ctx1 ?ctx0" by (rule parse_open_bracket_same [OF ob])
        have b1: "bracket_state ctx1 (Suc d)" by (rule parse_open_bracket_brackets [OF ob b0])
        let ?c = "Call_parse_expression_loop ctx1 True flags [] 1 0"
        have "scan_measure ?c < scan_measure call"
          using same lex by (simp add: scan_measure_def call same_input_def)
        with ih have cs: "call_scans ext ?c" by blast
        have s1: "scan_state ext ctx1 No_Argument (d + 1)"
          using unmatched True same b1 toks short by (simp add: scan_state_def same_input_def)
        have bound: "unat (0 :: 32 word) + 1 + length (lexer ctx1) < 2 ^ 32"
          using same short by (simp add: same_input_def)
        have pre: "(1 :: 32 word) = 0 + of_nat 1 \<and> scan_state ext ctx1 No_Argument (d + 1)
            \<and> (if True then 1 \<le> (1 :: nat) \<and> unat (0 :: 32 word) + 1 + length (lexer ctx1) < 2 ^ 32
                else d = 0)"
          using s1 bound by simp
        from cs [unfolded call_scans.simps, rule_format, OF pre]
        have "returns_scanning ext ?c d" by simp
        then obtain res' ctx2 where r: "parser ext ?c = Some (Inr (res', ctx2))"
            and s2: "scan_state ext ctx2 No_Argument d"
            and l2: "length (lexer ctx2) \<le> length (lexer ctx1)"
          by (auto simp: returns_scanning_def)
        have "parser ext call = Some (Inr (ta @ res', ctx2))"
          using r ob by (simp add: call e unfold True)
        from this s2 show ?thesis
          by (rule returns_scanning_now) (use l2 same lex in \<open>simp add: call same_input_def\<close>)
      next
        case not_open: False
        show ?thesis
        proof (cases "token = FSEARCH_QUERY_TOKEN_FIELD \<or> token = FSEARCH_QUERY_TOKEN_FIELD_EMPTY")
          case True
          let ?e = "token = FSEARCH_QUERY_TOKEN_FIELD_EMPTY"
          let ?c = "Call_parse_field ?ctx0 v ?e flags"
          have "scan_measure ?c < scan_measure call"
            using lex by (simp add: scan_measure_def call)
          with ih have "call_scans ext ?c" by blast
          moreover have "scan_state ext ?ctx0 (if ?e then No_Argument else field_argument v) d"
            using unmatched True by (intro s0) auto
          moreover have "loop_token ext (macro_filters ?ctx0)
              (if ?e then FSEARCH_QUERY_TOKEN_FIELD_EMPTY else FSEARCH_QUERY_TOKEN_FIELD, v)"
            using tok True by auto
          ultimately have rs: "returns_scanning ext ?c d" by simp
          have eq: "parser ext call = parser ext ?c"
            using True by (cases "token = FSEARCH_QUERY_TOKEN_FIELD") (simp_all add: call e unfold)
          from eq rs show ?thesis
            by (rule returns_scanning_eq) (simp add: call lex)
        next
          case other: False
          with unmatched not_word not_open have "unmatched_close rest No_Argument d" by simp
          from s0 [OF this] show ?thesis
            by (rule returns_scanning_now [rotated 1])
               (use other not_word not_open in \<open>simp_all add: call e unfold lex\<close>)
        qed
      qed
    qed
  qed
  then show ?thesis
    unfolding call call_scans.simps by blast
qed

lemma field_scans:
  assumes ih: "\<forall>call'. scan_measure call' < scan_measure call \<longrightarrow> call_scans ext call'"
      and call: "call = Call_parse_field parse_ctx name e flags"
  shows "call_scans ext call"
proof -
  have "returns_scanning ext call d"
    if st: "scan_state ext parse_ctx (if e then No_Argument else field_argument name) d"
      and tok: "loop_token ext (macro_filters parse_ctx)
               (if e then FSEARCH_QUERY_TOKEN_FIELD_EMPTY else FSEARCH_QUERY_TOKEN_FIELD, name)"
    for d
  proof -
    from tok have "macro_returns ext (macro_filters parse_ctx) name"
      by (auto simp: loop_token_def split: if_splits)
    moreover from st have "FSEARCH_QUERY_TOKEN_NONE \<notin> set (operator_stack parse_ctx)"
      by (simp add: scan_state_def bracket_state_def)
    ultimately obtain res1 ctx1 where
      m: "parser ext (Call_parse_filter_macros parse_ctx name flags) = Some (Inr (res1, ctx1))"
        and l1: "lexer ctx1 = lexer parse_ctx"
        and o1: "operator_stack ctx1 = operator_stack parse_ctx"
        and f1: "macro_filters ctx1 = macro_filters parse_ctx"
      unfolding macro_returns_def parse_filter_macros_def by blast
    have s1: "scan_state ext ctx1 a d" if "scan_state ext parse_ctx a d" for a
      using that l1 o1 f1 by (simp add: scan_state_def bracket_state_def)
    note unfold = field_unfold [of ext parse_ctx name e flags, unfolded m, simplified]
    show ?thesis
    proof (cases "res1 = []")
      case False
      have "e \<or> field_argument name = No_Argument"
      proof (rule ccontr)
        assume "\<not> (e \<or> field_argument name = No_Argument)"
        with tok have "find_filter (macro_filters parse_ctx) name 0 = None"
          by (auto simp: loop_token_def)
        with m False show False by (simp add: macros_unfold)
      qed
      with st have "scan_state ext parse_ctx No_Argument d" by (auto split: if_splits)
      from s1 [OF this] show ?thesis
        by (rule returns_scanning_now [rotated 1]) (simp_all add: call unfold False l1)
    next
      case True
      show ?thesis
      proof (cases "find (\<lambda>modifier. fst modifier = name) supported_modifiers")
        case (Some m)
        obtain n flag operation where mo: "m = (n, flag, operation)" by (cases m)
        let ?c = "Call_parse_modifier ctx1 e (apply_flag_operation operation flag flags)"
        have "scan_measure ?c < scan_measure call"
          using l1 by (simp add: scan_measure_def call)
        with ih have "call_scans ext ?c" by blast
        moreover have "scan_state ext ctx1 (if e then No_Argument else Modifier_Argument) d"
          using st modifier_field_argument [OF Some] by (intro s1) (auto split: if_splits)
        ultimately have rs: "returns_scanning ext ?c d" by simp
        have eq: "parser ext call = parser ext ?c"
          by (simp add: call unfold True Some mo)
        from eq rs show ?thesis
          by (rule returns_scanning_eq) (simp add: call l1)
      next
        case None
        show ?thesis
        proof (cases "find (\<lambda>function. fst function = name) supported_functions")
          case (Some p)
          obtain n f where p: "p = (n, f)" by (cases p)
          obtain r ctx' where run: "f ext ctx1 e flags = (r, ctx')" by fastforce
          from function_scans [OF Some [unfolded p] None run s1 [OF st]] l1
          have fs: "scan_state ext ctx' No_Argument d"
              "length (lexer ctx') \<le> length (lexer parse_ctx)"
            by simp_all
          have "parser ext call = Some (Inr (r, ctx'))"
            by (simp add: call unfold True None Some p run)
          from this fs(1) show ?thesis
            by (rule returns_scanning_now) (simp add: call fs(2))
        next
          case none: None
          from st unknown_field_argument [OF none None]
          have "scan_state ext parse_ctx No_Argument d" by (auto split: if_splits)
          from s1 [OF this] show ?thesis
            by (rule returns_scanning_now [rotated 1]) (simp_all add: call unfold True None none l1)
        qed
      qed
    qed
  qed
  then show ?thesis
    unfolding call call_scans.simps by blast
qed

lemma parser_call_scans: "call_scans ext call"
proof (induction "scan_measure call" arbitrary: call rule: less_induct)
  case less
  then have ih: "\<forall>call'. scan_measure call' < scan_measure call \<longrightarrow> call_scans ext call'"
    by blast
  show ?case
  proof (cases call)
    case (Call_parse_expression_loop parse_ctx b flags res no nc)
    then show ?thesis by (rule loop_scans [OF ih])
  next
    case (Call_parse_field parse_ctx name e flags)
    then show ?thesis by (rule field_scans [OF ih])
  next
    case (Call_parse_modifier parse_ctx e flags)
    then show ?thesis by (rule modifier_scans [OF ih])
  next
    case (Call_parse_filter_macros parse_ctx name flags)
    then show ?thesis by simp
  qed
qed

lemma unmatched_close_aborts:
  assumes "list_all (loop_token ext filters) lx"
      and "length lx < 2 ^ 32"
      and "unmatched_close lx No_Argument 0"
  shows "\<exists>ctx'. fsearch_query_parser_parse_expression ext (initial_context filters lx) False flags
                 = Some (Inr ([NodeMatchNothing], ctx'))"
proof -
  let ?ctx = "initial_context filters lx"
  have st: "scan_state ext ?ctx No_Argument (0 + 0)"
    using assms by (simp add: scan_state_def initial_context_def bracket_state_def)
  have pre: "(0 :: 32 word) = 0 + of_nat 0 \<and> scan_state ext ?ctx No_Argument (0 + 0)
      \<and> (if False then 1 \<le> (0 :: nat) \<and> unat (0 :: 32 word) + 0 + length (lexer ?ctx) < 2 ^ 32
          else (0 :: nat) = 0)"
    using st by simp
  from parser_call_scans [of ext "Call_parse_expression_loop ?ctx False flags [] 0 0",
      unfolded call_scans.simps, rule_format, OF pre]
  show ?thesis
    by (simp add: fsearch_query_parser_parse_expression_def parse_expression_loop_def)
qed

text \<open>
  No call reaches \<^verbatim>\<open>g_assert_not_reached\<close> from a state whose operator stack holds the
  open brackets of its loops, by the induction that shows that every call returns. So
  the expansion of a macro returns its nodes and leaves the stream as it was.
\<close>

lemma eos_free_drop: "eos_free lx \<Longrightarrow> eos_free (drop n lx)"
  unfolding eos_free_def list_all_iff by (meson in_set_dropD)

lemma eos_free_Cons:
  "eos_free (t # rest) \<longleftrightarrow> fst t \<noteq> FSEARCH_QUERY_TOKEN_EOS \<and> eos_free rest"
  by (simp add: eos_free_def)

lemma bracket_state_mono: "bracket_state parse_ctx d \<Longrightarrow> d' \<le> d \<Longrightarrow> bracket_state parse_ctx d'"
  by (simp add: bracket_state_def)

lemma safe_state_mono: "safe_state ext parse_ctx d \<Longrightarrow> d' \<le> d \<Longrightarrow> safe_state ext parse_ctx d'"
  by (auto simp: safe_state_def intro: bracket_state_mono)

lemma safe_state_rest:
  assumes "safe_state ext parse_ctx d" and "lexer parse_ctx = t # rest"
  shows "safe_state ext (parse_ctx\<lparr>lexer := rest\<rparr>) d" and "bracket_state parse_ctx d"
    and "fst t \<noteq> FSEARCH_QUERY_TOKEN_EOS"
  using assms by (auto simp: safe_state_def eos_free_Cons)

lemma safe_state_same:
  assumes "safe_state ext ctx1 d" and "same_input ctx2 ctx1"
      and "bracket_state ctx1 d \<Longrightarrow> bracket_state ctx2 d'"
  shows "safe_state ext ctx2 d'"
  using assms by (auto simp: safe_state_def same_input_def)

lemma safe_state_drop:
  assumes "safe_state ext parse_ctx d"
  shows "safe_state ext (parse_ctx\<lparr>lexer := drop n (lexer parse_ctx)\<rparr>) d"
  using assms by (auto simp: safe_state_def eos_free_drop)

lemma append_parsed_safe:
  assumes "append_parsed ctx1 l t s to_append res = (res', ctx2)" and "safe_state ext ctx1 d"
  shows "safe_state ext ctx2 d"
  using assms(2) append_parsed_same [OF assms(1)]
  by (rule safe_state_same) (rule append_parsed_brackets [OF assms(1)])

lemma consume_not_drop:
  "\<exists>n. snd (consume_consecutive_not_token_loop lx u) = drop n lx"
proof (induction lx arbitrary: u)
  case Nil
  then show ?case by simp
next
  case (Cons t lx)
  show ?case
  proof (cases "fst t = FSEARCH_QUERY_TOKEN_NOT")
    case True
    from Cons [of "\<not> u"] obtain n where
      "snd (consume_consecutive_not_token_loop lx (\<not> u)) = drop n lx" ..
    with True have "snd (consume_consecutive_not_token_loop (t # lx) u) = drop (Suc n) (t # lx)"
      by simp
    then show ?thesis ..
  next
    case False
    then have "snd (consume_consecutive_not_token_loop (t # lx) u) = drop 0 (t # lx)" by simp
    then show ?thesis ..
  qed
qed

lemma discard_drop:
  "\<exists>n. discard_consecutive_binary_operator_tokens lx = drop n lx"
proof (induction lx)
  case Nil
  then show ?case by simp
next
  case (Cons t lx)
  show ?case
  proof (cases "is_binary_operator_token (fst t)")
    case True
    from Cons obtain n where "discard_consecutive_binary_operator_tokens lx = drop n lx" ..
    with True have "discard_consecutive_binary_operator_tokens (t # lx) = drop (Suc n) (t # lx)"
      by simp
    then show ?thesis ..
  next
    case False
    then have "discard_consecutive_binary_operator_tokens (t # lx) = drop 0 (t # lx)" by simp
    then show ?thesis ..
  qed
qed

lemma next_token_drop:
  "fsearch_query_lexer_get_next_token lx = (t, lx') \<Longrightarrow> lx' = drop 1 lx"
  by (cases lx) auto

lemma expect_word_drop: "expect_word lx = (r, lx') \<Longrightarrow> lx' = drop 1 lx"
  by (auto simp: expect_word_def split: prod.splits dest: next_token_drop)

lemma numeric_value_reads:
  assumes "parse_numeric_function_value parse_ctx flags n p c = (r, ctx')"
  shows "ctx' = parse_ctx\<lparr>lexer := drop 1 (lexer parse_ctx)\<rparr>"
  using assms
  by (auto simp: parse_numeric_function_value_def
      split: prod.splits if_splits option.splits dest: expect_word_drop)

lemma numeric_function_reads:
  assumes "parse_numeric_function parse_ctx e flags n p = (r, ctx')"
  shows "\<exists>m. ctx' = parse_ctx\<lparr>lexer := drop m (lexer parse_ctx)\<rparr>"
proof (cases e)
  case True
  with assms have "ctx' = parse_ctx\<lparr>lexer := drop 0 (lexer parse_ctx)\<rparr>"
    by (auto simp: parse_numeric_function_def)
  then show ?thesis ..
next
  case False
  obtain token v lx where nt: "fsearch_query_lexer_get_next_token (lexer parse_ctx) = ((token, v), lx)"
    by (metis surj_pair)
  then have lx: "lx = drop 1 (lexer parse_ctx)" by (rule next_token_drop)
  from assms False nt have "ctx' = parse_ctx\<lparr>lexer := lx\<rparr>
      \<or> (\<exists>cmp. parse_numeric_function_value (parse_ctx\<lparr>lexer := lx\<rparr>) flags n p cmp = (r, ctx'))"
    by (cases token) (auto simp: parse_numeric_function_def)
  then show ?thesis
  proof
    assume "ctx' = parse_ctx\<lparr>lexer := lx\<rparr>"
    with lx show ?thesis by blast
  next
    assume "\<exists>cmp. parse_numeric_function_value (parse_ctx\<lparr>lexer := lx\<rparr>) flags n p cmp = (r, ctx')"
    then obtain cmp where
      "parse_numeric_function_value (parse_ctx\<lparr>lexer := lx\<rparr>) flags n p cmp = (r, ctx')" ..
    from numeric_value_reads [OF this] lx
    have "ctx' = parse_ctx\<lparr>lexer := drop 2 (lexer parse_ctx)\<rparr>"
      by (simp add: numeral_2_eq_2)
    then show ?thesis ..
  qed
qed

lemma string_function_reads:
  assumes "(if e then (r0, parse_ctx)
            else (case expect_word (lexer parse_ctx) of
                    ((is_word, token_value), lx) \<Rightarrow>
                      (if is_word then (g token_value, parse_ctx\<lparr>lexer := lx\<rparr>)
                       else (r1, parse_ctx\<lparr>lexer := lx\<rparr>)))) = (r, ctx')"
  shows "\<exists>m. ctx' = parse_ctx\<lparr>lexer := drop m (lexer parse_ctx)\<rparr>"
proof (cases e)
  case True
  with assms have "ctx' = parse_ctx\<lparr>lexer := drop 0 (lexer parse_ctx)\<rparr>" by auto
  then show ?thesis ..
next
  case False
  obtain w v lx where ew: "expect_word (lexer parse_ctx) = ((w, v), lx)"
    by (metis surj_pair)
  from expect_word_drop [OF ew] assms False ew
  have "ctx' = parse_ctx\<lparr>lexer := drop 1 (lexer parse_ctx)\<rparr>"
    by (auto split: if_splits)
  then show ?thesis ..
qed

lemma supported_function_reads:
  assumes "(name, function_parser) \<in> set supported_functions"
      and "function_parser ext parse_ctx e flags = (r, ctx')"
  shows "\<exists>m. ctx' = parse_ctx\<lparr>lexer := drop m (lexer parse_ctx)\<rparr>"
proof -
  from assms(1) consider
      "function_parser = parse_function_childcount" | "function_parser = parse_function_childfilecount"
    | "function_parser = parse_function_childfoldercount" | "function_parser = parse_function_contenttype"
    | "function_parser = parse_function_depth" | "function_parser = parse_function_date_modified"
    | "function_parser = parse_function_empty" | "function_parser = parse_function_extension"
    | "function_parser = parse_function_parent" | "function_parser = parse_function_size"
    unfolding supported_functions_def by (simp only: list.set insert_iff empty_iff prod.inject) blast
  then show ?thesis
  proof cases
    case 1 with assms(2) show ?thesis
      by (auto simp: parse_function_childcount_def dest: numeric_function_reads)
  next
    case 2 with assms(2) show ?thesis
      by (auto simp: parse_function_childfilecount_def dest: numeric_function_reads)
  next
    case 3 with assms(2) show ?thesis
      by (auto simp: parse_function_childfoldercount_def dest: numeric_function_reads)
  next
    case 4 with assms(2) show ?thesis
      by (intro string_function_reads [where e = e]) (simp add: parse_function_contenttype_def)
  next
    case 5 with assms(2) show ?thesis
      by (auto simp: parse_function_depth_def dest: numeric_function_reads)
  next
    case 6 with assms(2) show ?thesis
      by (auto simp: parse_function_date_modified_def dest: numeric_function_reads)
  next
    case 7
    with assms(2) have "ctx' = parse_ctx\<lparr>lexer := drop 0 (lexer parse_ctx)\<rparr>"
      by (auto simp: parse_function_empty_def)
    then show ?thesis ..
  next
    case 8 with assms(2) show ?thesis
      by (intro string_function_reads [where e = e]) (simp add: parse_function_extension_def)
  next
    case 9 with assms(2) show ?thesis
      by (intro string_function_reads [where e = e]) (simp add: parse_function_parent_def Let_def)
  next
    case 10 with assms(2) show ?thesis
      by (auto simp: parse_function_size_def dest: numeric_function_reads)
  qed
qed

lemma supported_function_safe:
  assumes "(name, function_parser) \<in> set supported_functions"
      and "function_parser ext' parse_ctx e flags = (r, ctx')"
      and "safe_state ext parse_ctx d"
  shows "safe_state ext ctx' d \<and> context_after ctx' parse_ctx"
proof -
  from supported_function_reads [OF assms(1,2)] obtain m where
    "ctx' = parse_ctx\<lparr>lexer := drop m (lexer parse_ctx)\<rparr>" ..
  with safe_state_drop [OF assms(3), of m] show ?thesis
    by (simp add: context_after_def)
qed

lemma call_safe_smaller:
  assumes ih: "\<forall>call'. (call_measure call', call_measure call)
                  \<in> less_than <*lex*> less_than <*lex*> less_than \<longrightarrow> call_safe ext call'"
      and "context_after (call_context call') (call_context call)"
      and "length (lexer (call_context call')) < length (lexer (call_context call))
           \<or> call_rank call' < call_rank call"
  shows "call_safe ext call'"
proof (rule ih [rule_format])
  from assms(2) have "unexpanded_filters (call_context call') = unexpanded_filters (call_context call)"
    by (rule unexpanded_same)
  moreover from assms(2) have "length (lexer (call_context call')) \<le> length (lexer (call_context call))"
    by (simp add: context_after_def)
  ultimately show "(call_measure call', call_measure call)
                  \<in> less_than <*lex*> less_than <*lex*> less_than"
    using assms(3) by (auto simp: call_measure_def)
qed

lemma returns_safely_now:
  assumes "parser ext call = Some (Inr (res, ctx'))"
      and "safe_state ext ctx' d" and "context_after ctx' (call_context call)"
  shows "returns_safely ext call d"
  using assms by (auto simp: returns_safely_def)

lemma returns_safely_eq:
  assumes "parser ext call = parser ext call'"
      and "returns_safely ext call' d"
      and "context_after (call_context call') (call_context call)"
  shows "returns_safely ext call d"
  using assms by (auto simp: returns_safely_def intro: context_after_trans)

lemma loop_step_safe:
  assumes ih: "\<forall>call'. (call_measure call', call_measure call)
                  \<in> less_than <*lex*> less_than <*lex*> less_than \<longrightarrow> call_safe ext call'"
      and call: "call = Call_parse_expression_loop parse_ctx b flags res no nc"
      and lex: "lexer parse_ctx = t # rest"
      and eq: "parser ext call = parser ext (Call_parse_expression_loop ctx2 b flags res' no' nc')"
      and after: "context_after ctx2 (parse_ctx\<lparr>lexer := rest\<rparr>)"
      and st: "safe_state ext ctx2 (d + k')"
      and cnt: "no' = nc' + of_nat k'"
  shows "returns_safely ext call d"
proof -
  let ?c = "Call_parse_expression_loop ctx2 b flags res' no' nc'"
  have after': "context_after (call_context ?c) (call_context call)"
    using after lex by (simp add: call context_after_def)
  have "call_safe ext ?c"
  proof (rule call_safe_smaller [OF ih after'])
    show "length (lexer (call_context ?c)) < length (lexer (call_context call))
          \<or> call_rank ?c < call_rank call"
      using after lex by (simp add: call context_after_def)
  qed
  from this [unfolded call_safe.simps, rule_format, OF conjI [OF cnt st]]
  have "returns_safely ext ?c d" .
  with eq show ?thesis using after' by (rule returns_safely_eq)
qed

lemma loop_safe:
  assumes ih: "\<forall>call'. (call_measure call', call_measure call)
                  \<in> less_than <*lex*> less_than <*lex*> less_than \<longrightarrow> call_safe ext call'"
      and call: "call = Call_parse_expression_loop parse_ctx b flags res no nc"
  shows "call_safe ext call"
proof -
  have "returns_safely ext call d"
    if cnt: "no = nc + of_nat k" and st: "safe_state ext parse_ctx (d + k)" for d k
  proof (cases "lexer parse_ctx")
    case Nil
    have "parser ext call = Some (Inr (pop_remaining_operators (operator_stack parse_ctx) res,
                parse_ctx\<lparr>operator_stack := []\<rparr>))"
      by (simp add: call loop_eos [OF Nil])
    then show ?thesis
      by (rule returns_safely_now)
         (use st Nil in \<open>simp_all add: safe_state_def call context_after_def\<close>)
  next
    case (Cons t rest)
    obtain token v where t: "t = (token, v)" by (cases t)
    note lex = Cons [unfolded t]
    note step = loop_step_safe [OF ih call Cons]
    let ?ctx0 = "parse_ctx\<lparr>lexer := rest\<rparr>"
    from safe_state_rest [OF st Cons] t
    have s0: "safe_state ext ?ctx0 (d + k)" and b0: "bracket_state ?ctx0 (d + k)"
      and not_eos: "token \<noteq> FSEARCH_QUERY_TOKEN_EOS"
      by simp_all
    have after0: "context_after ?ctx0 ?ctx0" by (simp add: context_after_def)
    have and_or: ?thesis if tk: "token = FSEARCH_QUERY_TOKEN_AND \<or> token = FSEARCH_QUERY_TOKEN_OR"
    proof -
      obtain ta ctx1 where sw: "switch_and_or ?ctx0 token = (ta, ctx1)"
        by fastforce
      obtain res' ctx2 where ap:
        "append_parsed ctx1 (last_token parse_ctx) token False ta res = (res', ctx2)"
        by fastforce
      have s1: "safe_state ext ctx1 (d + k)"
        using s0 switch_and_or_same [OF sw] by (rule safe_state_same) (rule switch_and_or_brackets [OF tk sw])
      show ?thesis
      proof (rule step [OF _ _ append_parsed_safe [OF ap s1] cnt])
        show "parser ext call = parser ext (Call_parse_expression_loop ctx2 b flags res' no nc)"
          by (simp add: call loop_and_or [OF lex tk] sw ap)
        show "context_after ctx2 ?ctx0"
          using switch_and_or_same [OF sw] append_parsed_same [OF ap]
          by (simp add: same_input_def context_after_def)
      qed
    qed
    have other: ?thesis
      if tk: "token \<in> {FSEARCH_QUERY_TOKEN_NONE, FSEARCH_QUERY_TOKEN_EQUAL,
         FSEARCH_QUERY_TOKEN_SMALLER, FSEARCH_QUERY_TOKEN_SMALLER_EQ, FSEARCH_QUERY_TOKEN_GREATER,
         FSEARCH_QUERY_TOKEN_GREATER_EQ}"
      by (rule step [OF _ after0 s0 cnt]) (simp add: call loop_other [OF lex tk])
    have field: ?thesis
      if tk: "token = FSEARCH_QUERY_TOKEN_FIELD \<or> token = FSEARCH_QUERY_TOKEN_FIELD_EMPTY"
    proof -
      let ?c1 = "Call_parse_field ?ctx0 v (token = FSEARCH_QUERY_TOKEN_FIELD_EMPTY) flags"
      have "call_safe ext ?c1"
      proof (rule call_safe_smaller [OF ih])
        show "context_after (call_context ?c1) (call_context call)"
          using Cons by (simp add: call context_after_def)
        show "length (lexer (call_context ?c1)) < length (lexer (call_context call))
              \<or> call_rank ?c1 < call_rank call"
          using Cons by (simp add: call)
      qed
      with s0 have "returns_safely ext ?c1 (d + k)" by simp
      then obtain ta ctx1 where r1: "parser ext ?c1 = Some (Inr (ta, ctx1))"
          and s1: "safe_state ext ctx1 (d + k)" and a1: "context_after ctx1 ?ctx0"
        by (auto simp: returns_safely_def)
      obtain res' ctx2 where ap:
        "append_parsed ctx1 (last_token parse_ctx) token False ta res = (res', ctx2)"
        by fastforce
      show ?thesis
      proof (rule step [OF _ _ append_parsed_safe [OF ap s1] cnt])
        show "parser ext call = parser ext (Call_parse_expression_loop ctx2 b flags res' no nc)"
          using r1 by (simp add: call loop_field [OF lex tk] ap)
        show "context_after ctx2 ?ctx0"
          using a1 append_parsed_same [OF ap] by (simp add: same_input_def context_after_def)
      qed
    qed
    show ?thesis
    proof (cases token)
      case FSEARCH_QUERY_TOKEN_NONE
      then show ?thesis by (intro other) simp
    next
      case FSEARCH_QUERY_TOKEN_EOS
      with not_eos show ?thesis by simp
    next
      case FSEARCH_QUERY_TOKEN_WORD
      obtain res' ctx2 where ap:
        "append_parsed ?ctx0 (last_token parse_ctx) FSEARCH_QUERY_TOKEN_WORD
           False [NodeWord v flags] res = (res', ctx2)"
        by fastforce
      show ?thesis
        by (rule step [OF _ same_input_after [OF append_parsed_same [OF ap]]
              append_parsed_safe [OF ap s0] cnt])
           (simp add: call loop_word [OF lex [unfolded FSEARCH_QUERY_TOKEN_WORD]] ap)
    next
      case FSEARCH_QUERY_TOKEN_FIELD
      then show ?thesis by (intro field) simp
    next
      case FSEARCH_QUERY_TOKEN_FIELD_EMPTY
      then show ?thesis by (intro field) simp
    next
      case FSEARCH_QUERY_TOKEN_AND
      then show ?thesis by (intro and_or) simp
    next
      case FSEARCH_QUERY_TOKEN_OR
      then show ?thesis by (intro and_or) simp
    next
      case FSEARCH_QUERY_TOKEN_NOT
      obtain ta ctx1 skip where sw:
        "switch_not ?ctx0 (last_token parse_ctx) = (ta, ctx1, skip)"
        by (metis prod_cases3)
      obtain res' ctx2 where ap:
        "append_parsed ctx1 (last_token parse_ctx) FSEARCH_QUERY_TOKEN_NOT skip ta res = (res', ctx2)"
        by fastforce
      obtain m where m: "snd (consume_consecutive_not_token_loop rest True) = drop m rest"
        using consume_not_drop by blast
      have l1: "lexer ctx1 = drop m rest" and b1: "bracket_state ctx1 (d + k)"
        using switch_not_brackets [OF sw b0] m by simp_all
      have a1: "context_after ctx1 ?ctx0" by (rule switch_not_after [OF sw])
      have s1: "safe_state ext ctx1 (d + k)"
        using safe_state_drop [OF s0, of m] l1 b1 a1
        by (simp add: safe_state_def context_after_def)
      show ?thesis
      proof (rule step [OF _ _ append_parsed_safe [OF ap s1] cnt])
        show "parser ext call = parser ext (Call_parse_expression_loop ctx2 b flags res' no nc)"
          by (simp add: call loop_not [OF lex [unfolded FSEARCH_QUERY_TOKEN_NOT]] sw ap)
        show "context_after ctx2 ?ctx0"
          using a1 append_parsed_same [OF ap] by (simp add: same_input_def context_after_def)
      qed
    next
      case FSEARCH_QUERY_TOKEN_BRACKET_OPEN
      obtain ta ctx1 where sw: "switch_bracket_open ?ctx0 = (ta, ctx1)"
        by fastforce
      obtain res' ctx2 where ap:
        "append_parsed ctx1 (last_token parse_ctx) FSEARCH_QUERY_TOKEN_BRACKET_OPEN False ta res
           = (res', ctx2)"
        by fastforce
      obtain m where m: "discard_consecutive_binary_operator_tokens rest = drop m rest"
        using discard_drop by blast
      have l1: "lexer ctx1 = drop m rest" and b1: "bracket_state ctx1 (Suc (d + k))"
        using switch_bracket_open_brackets [OF sw b0] m by simp_all
      have a1: "context_after ctx1 ?ctx0" by (rule switch_bracket_open_after [OF sw])
      have s1: "safe_state ext ctx1 (d + Suc k)"
        using safe_state_drop [OF s0, of m] l1 b1 a1
        by (simp add: safe_state_def context_after_def)
      show ?thesis
      proof (rule step [OF _ _ append_parsed_safe [OF ap s1]])
        show "parser ext call
              = parser ext (Call_parse_expression_loop ctx2 b flags res' (no + 1) nc)"
          by (simp add: call loop_bracket_open [OF lex [unfolded FSEARCH_QUERY_TOKEN_BRACKET_OPEN]]
                sw ap)
        show "context_after ctx2 ?ctx0"
          using a1 append_parsed_same [OF ap] by (simp add: same_input_def context_after_def)
        show "no + 1 = nc + of_nat (Suc k)" using cnt by simp
      qed
    next
      case FSEARCH_QUERY_TOKEN_BRACKET_CLOSE
      note eq = loop_bracket_close [OF lex [unfolded FSEARCH_QUERY_TOKEN_BRACKET_CLOSE]]
      show ?thesis
      proof (cases "no > nc")
        case False
        then have "parser ext call = Some (Inr ([NodeMatchNothing], ?ctx0))"
          by (simp add: call eq)
        then show ?thesis
          by (rule returns_safely_now)
             (use s0 Cons in \<open>auto simp: call context_after_def intro: safe_state_mono\<close>)
      next
        case True
        have "k \<noteq> 0"
        proof
          assume "k = 0"
          with True cnt show False by simp
        qed
        then obtain k' where k: "k = Suc k'" by (cases k) auto
        from parse_close_bracket_brackets [of ?ctx0 "d + k'"] b0 k
        obtain ta ctx1 where
          cb: "parse_close_bracket ?ctx0 = Inr (ta, ctx1)"
            "bracket_state ctx1 (d + k')" "lexer ctx1 = rest"
          by auto
        have same1: "same_input ctx1 ?ctx0"
          by (rule parse_close_bracket_same [OF cb(1)])
        have s1: "safe_state ext ctx1 (d + k')"
          using s0 same1 by (rule safe_state_same) (rule cb(2))
        show ?thesis
        proof (cases "b \<and> nc + 1 = no")
          case True
          with \<open>no > nc\<close> cb(1) have "parser ext call = Some (Inr (res @ ta, ctx1))"
            by (simp add: call eq)
          then show ?thesis
            by (rule returns_safely_now)
               (use s1 same1 Cons in
                 \<open>auto simp: call context_after_def same_input_def intro: safe_state_mono\<close>)
        next
          case False
          obtain res' ctx2 where ap:
            "append_parsed ctx1 (last_token parse_ctx) FSEARCH_QUERY_TOKEN_BRACKET_CLOSE False ta res
               = (res', ctx2)"
            by fastforce
          show ?thesis
          proof (rule step [OF _ _ append_parsed_safe [OF ap s1]])
            show "parser ext call
                  = parser ext (Call_parse_expression_loop ctx2 b flags res' no (nc + 1))"
              using False \<open>no > nc\<close> cb(1) ap by (auto simp: call eq)
            show "context_after ctx2 ?ctx0"
              using same1 append_parsed_same [OF ap] by (simp add: same_input_def context_after_def)
            show "no = nc + 1 + of_nat k'" using cnt k by simp
          qed
        qed
      qed
    next
      case FSEARCH_QUERY_TOKEN_EQUAL
      then show ?thesis by (intro other) simp
    next
      case FSEARCH_QUERY_TOKEN_SMALLER
      then show ?thesis by (intro other) simp
    next
      case FSEARCH_QUERY_TOKEN_SMALLER_EQ
      then show ?thesis by (intro other) simp
    next
      case FSEARCH_QUERY_TOKEN_GREATER
      then show ?thesis by (intro other) simp
    next
      case FSEARCH_QUERY_TOKEN_GREATER_EQ
      then show ?thesis by (intro other) simp
    qed
  qed
  then show ?thesis
    unfolding call call_safe.simps by blast
qed

lemma field_safe:
  assumes ih: "\<forall>call'. (call_measure call', call_measure call)
                  \<in> less_than <*lex*> less_than <*lex*> less_than \<longrightarrow> call_safe ext call'"
      and call: "call = Call_parse_field parse_ctx name e flags"
  shows "call_safe ext call"
proof -
  have "returns_safely ext call d" if st: "safe_state ext parse_ctx d" for d
  proof -
    let ?c1 = "Call_parse_filter_macros parse_ctx name flags"
    have "call_safe ext ?c1"
      by (rule call_safe_smaller [OF ih]) (simp_all add: call context_after_def)
    with st have "returns_safely ext ?c1 d" by simp
    then obtain res1 ctx1 where m: "parser ext ?c1 = Some (Inr (res1, ctx1))"
        and s1: "safe_state ext ctx1 d" and a1: "context_after ctx1 parse_ctx"
      by (auto simp: returns_safely_def)
    note unfold = field_unfold [of ext parse_ctx name e flags, unfolded m, simplified]
    show ?thesis
    proof (cases "res1 = []")
      case False
      then have "parser ext call = Some (Inr (res1, ctx1))"
        by (simp add: call unfold)
      from this s1 show ?thesis
        by (rule returns_safely_now) (simp add: call a1)
    next
      case True
      show ?thesis
      proof (cases "find (\<lambda>modifier. fst modifier = name) supported_modifiers")
        case (Some mo)
        obtain n flag operation where mo: "mo = (n, flag, operation)" by (cases mo)
        let ?c2 = "Call_parse_modifier ctx1 e (apply_flag_operation operation flag flags)"
        have "call_safe ext ?c2"
          using a1 by (intro call_safe_smaller [OF ih]) (simp_all add: call)
        with s1 have rs: "returns_safely ext ?c2 d" by simp
        have eq: "parser ext call = parser ext ?c2"
          by (simp add: call unfold True Some mo)
        from eq rs show ?thesis
          by (rule returns_safely_eq) (simp add: call a1)
      next
        case None
        show ?thesis
        proof (cases "find (\<lambda>function. fst function = name) supported_functions")
          case (Some p)
          obtain n f where p: "p = (n, f)" by (cases p)
          obtain r ctx' where run: "f ext ctx1 e flags = (r, ctx')" by fastforce
          have "(n, f) \<in> set supported_functions"
            using Some p by (auto dest: find_SomeD)
          from supported_function_safe [OF this run s1]
          have fs: "safe_state ext ctx' d" "context_after ctx' ctx1" by simp_all
          have "parser ext call = Some (Inr (r, ctx'))"
            by (simp add: call unfold True None Some p run)
          from this fs(1) show ?thesis
            by (rule returns_safely_now)
               (use fs(2) a1 in \<open>auto simp: call intro: context_after_trans\<close>)
        next
          case none: None
          have "parser ext call = Some (Inr ([NodeMatchNothing], ctx1))"
            by (simp add: call unfold True None none)
          from this s1 show ?thesis
            by (rule returns_safely_now) (simp add: call a1)
        qed
      qed
    qed
  qed
  then show ?thesis
    unfolding call call_safe.simps by blast
qed

lemma modifier_safe:
  assumes ih: "\<forall>call'. (call_measure call', call_measure call)
                  \<in> less_than <*lex*> less_than <*lex*> less_than \<longrightarrow> call_safe ext call'"
      and call: "call = Call_parse_modifier parse_ctx e flags"
  shows "call_safe ext call"
proof -
  have refl: "context_after parse_ctx parse_ctx" by (simp add: context_after_def)
  have "returns_safely ext call d" if st: "safe_state ext parse_ctx d" for d
  proof (cases e)
    case True
    then have "parser ext call = Some (Inr ([NodeMatchEverything flags], parse_ctx))"
      by (simp add: call modifier_unfold)
    from this st show ?thesis
      by (rule returns_safely_now) (simp add: call refl)
  next
    case False
    then have e: "e = False" by simp
    show ?thesis
    proof (cases "lexer parse_ctx")
      case Nil
      then have "parser ext call = Some (Inr ([NodeMatchNothing], parse_ctx\<lparr>lexer := []\<rparr>))"
        by (simp add: call e modifier_unfold)
      then show ?thesis
        by (rule returns_safely_now)
           (use st Nil in \<open>simp_all add: call safe_state_def context_after_def\<close>)
    next
      case (Cons t rest)
      obtain token v where t: "t = (token, v)" by (cases t)
      note lex = Cons [unfolded t]
      let ?ctx0 = "parse_ctx\<lparr>lexer := rest\<rparr>"
      from safe_state_rest [OF st Cons]
      have s0: "safe_state ext ?ctx0 d" and b0: "bracket_state ?ctx0 d" by simp_all
      have after0: "context_after ?ctx0 parse_ctx"
        using lex by (simp add: context_after_def)
      note unfold = modifier_unfold [of ext parse_ctx False flags, unfolded lex, simplified]
      show ?thesis
      proof (cases "token = FSEARCH_QUERY_TOKEN_WORD")
        case True
        then have "parser ext call = Some (Inr ([NodeWord v flags], ?ctx0))"
          by (simp add: call e unfold)
        from this s0 show ?thesis
          by (rule returns_safely_now) (simp add: call after0)
      next
        case not_word: False
        show ?thesis
        proof (cases "token = FSEARCH_QUERY_TOKEN_BRACKET_OPEN")
          case True
          obtain ta ctx1 where ob: "parse_open_bracket ?ctx0 = (ta, ctx1)" by fastforce
          have same: "same_input ctx1 ?ctx0" by (rule parse_open_bracket_same [OF ob])
          have s1: "safe_state ext ctx1 (d + 1)"
            using s0 same
            by (rule safe_state_same) (use parse_open_bracket_brackets [OF ob] in simp)
          have a1: "context_after ctx1 parse_ctx"
            using same lex by (simp add: same_input_def context_after_def)
          let ?c = "Call_parse_expression_loop ctx1 True flags [] 1 0"
          have cs: "call_safe ext ?c"
            using a1 same lex
            by (intro call_safe_smaller [OF ih]) (simp_all add: call same_input_def)
          have pre: "(1 :: 32 word) = 0 + of_nat 1 \<and> safe_state ext ctx1 (d + 1)"
            using s1 by simp
          from cs [unfolded call_safe.simps, rule_format, OF pre]
          obtain res' ctx2 where r: "parser ext ?c = Some (Inr (res', ctx2))"
              and s2: "safe_state ext ctx2 d" and a2: "context_after ctx2 ctx1"
            by (auto simp: returns_safely_def)
          have "parser ext call = Some (Inr (ta @ res', ctx2))"
            using r ob by (simp add: call e unfold True)
          from this s2 show ?thesis
            by (rule returns_safely_now)
               (use a1 a2 in \<open>auto simp: call intro: context_after_trans\<close>)
        next
          case not_open: False
          show ?thesis
          proof (cases "token = FSEARCH_QUERY_TOKEN_FIELD \<or> token = FSEARCH_QUERY_TOKEN_FIELD_EMPTY")
            case True
            let ?c = "Call_parse_field ?ctx0 v (token = FSEARCH_QUERY_TOKEN_FIELD_EMPTY) flags"
            have "call_safe ext ?c"
              using after0 lex by (intro call_safe_smaller [OF ih]) (simp_all add: call)
            with s0 have rs: "returns_safely ext ?c d" by simp
            have eq: "parser ext call = parser ext ?c"
              using True by (cases "token = FSEARCH_QUERY_TOKEN_FIELD") (simp_all add: call e unfold)
            from eq rs show ?thesis
              by (rule returns_safely_eq) (simp add: call after0)
          next
            case other: False
            with not_word not_open
            have "parser ext call = Some (Inr ([NodeMatchNothing], ?ctx0))"
              by (simp add: call e unfold)
            from this s0 show ?thesis
              by (rule returns_safely_now) (simp add: call after0)
          qed
        qed
      qed
    qed
  qed
  then show ?thesis
    unfolding call call_safe.simps by blast
qed

lemma find_filter_member:
  "find_filter fs name k = Some (i, f) \<Longrightarrow> f \<in> set fs"
  by (induction fs arbitrary: k) (auto split: if_splits)

lemma macros_safe:
  assumes ih: "\<forall>call'. (call_measure call', call_measure call)
                  \<in> less_than <*lex*> less_than <*lex*> less_than \<longrightarrow> call_safe ext call'"
      and call: "call = Call_parse_filter_macros parse_ctx name flags"
  shows "call_safe ext call"
proof -
  have refl: "context_after parse_ctx parse_ctx" by (simp add: context_after_def)
  have "returns_safely ext call d" if st: "safe_state ext parse_ctx d" for d
  proof (cases "find_filter (macro_filters parse_ctx) name 0")
    case None
    then have "parser ext call = Some (Inr ([], parse_ctx))"
      by (simp add: call macros_unfold)
    from this st show ?thesis
      by (rule returns_safely_now) (simp add: call refl)
  next
    case (Some p)
    obtain i filt where p: "p = (i, filt)" by (cases p)
    show ?thesis
    proof (cases "i \<in> set (macro_stack parse_ctx) \<or> fsearch_string_is_empty (query filt)")
      case True
      with Some p have "parser ext call = Some (Inr ([], parse_ctx))"
        by (auto simp: call macros_unfold)
      from this st show ?thesis
        by (rule returns_safely_now) (simp add: call refl)
    next
      case False
      have bound: "i < length (macro_filters parse_ctx)"
        using find_filter_bound [of "macro_filters parse_ctx" name 0 i filt] Some p by simp
      have member: "filt \<in> set (macro_filters parse_ctx)"
        using find_filter_member [of "macro_filters parse_ctx" name 0 i filt] Some p by simp
      define ctx1 where "ctx1 = parse_ctx\<lparr>macro_stack := macro_stack parse_ctx @ [i],
                                        lexer := fsearch_query_lexer_new ext (query filt),
                                        operator_stack := []\<rparr>"
      have less: "unexpanded_filters ctx1 < unexpanded_filters parse_ctx"
        using bound False by (intro unexpanded_push [where i = i]) (simp_all add: ctx1_def)
      have s1: "safe_state ext ctx1 (0 + 0)"
        using st member
        by (auto simp: safe_state_def ctx1_def bracket_state_def list_all_iff)
      define flags3 where "flags3 =
        (if QUERY_FLAG_REGEX \<in> filter_flags filt
         then insert QUERY_FLAG_REGEX
           (if QUERY_FLAG_MATCH_CASE \<in> filter_flags filt
            then insert QUERY_FLAG_MATCH_CASE
              (if QUERY_FLAG_SEARCH_IN_PATH \<in> filter_flags filt
               then insert QUERY_FLAG_SEARCH_IN_PATH flags else flags)
            else (if QUERY_FLAG_SEARCH_IN_PATH \<in> filter_flags filt
               then insert QUERY_FLAG_SEARCH_IN_PATH flags else flags))
         else
           (if QUERY_FLAG_MATCH_CASE \<in> filter_flags filt
            then insert QUERY_FLAG_MATCH_CASE
              (if QUERY_FLAG_SEARCH_IN_PATH \<in> filter_flags filt
               then insert QUERY_FLAG_SEARCH_IN_PATH flags else flags)
            else (if QUERY_FLAG_SEARCH_IN_PATH \<in> filter_flags filt
               then insert QUERY_FLAG_SEARCH_IN_PATH flags else flags)))"
      let ?c = "Call_parse_expression_loop ctx1 False flags3 [] 0 0"
      have cs: "call_safe ext ?c"
        by (rule ih [rule_format]) (use less in \<open>simp add: call call_measure_def\<close>)
      have pre: "(0 :: 32 word) = 0 + of_nat 0 \<and> safe_state ext ctx1 (0 + 0)"
        using s1 by simp
      from cs [unfolded call_safe.simps, rule_format, OF pre]
      obtain res ctx2 where r: "parser ext ?c = Some (Inr (res, ctx2))"
          and a2: "context_after ctx2 ctx1"
        by (auto simp: returns_safely_def)
      have eq: "parser ext (Call_parse_filter_macros parse_ctx name flags) =
        Option.bind (parser ext ?c)
          (\<lambda>r. case r of
                  Inl e \<Rightarrow> Some (Inl e)
                | Inr (res, ctx2) \<Rightarrow>
                    Some (Inr (res,
                      ctx2\<lparr>operator_stack := operator_stack parse_ctx,
                           lexer := lexer parse_ctx,
                           macro_stack := butlast (macro_stack ctx2)\<rparr>)))"
        using Some p False
        by (simp add: macros_unfold Let_def ctx1_def flags3_def)
      let ?ctx' = "ctx2\<lparr>operator_stack := operator_stack parse_ctx,
                           lexer := lexer parse_ctx,
                           macro_stack := butlast (macro_stack ctx2)\<rparr>"
      from a2 have m2: "macro_stack ctx2 = macro_stack parse_ctx @ [i]"
          "macro_filters ctx2 = macro_filters parse_ctx"
        by (simp_all add: context_after_def ctx1_def)
      have "parser ext call = Some (Inr (res, ?ctx'))"
        using r by (simp add: call eq)
      then show ?thesis
        by (rule returns_safely_now)
           (use st m2 in \<open>simp_all add: call safe_state_def bracket_state_def context_after_def\<close>)
    qed
  qed
  then show ?thesis
    unfolding call call_safe.simps by blast
qed

lemma parser_call_safe: "call_safe ext call"
proof -
  have "wf (inv_image (less_than <*lex*> less_than <*lex*> less_than) call_measure)"
    by (intro wf_inv_image wf_lex_prod wf_less_than)
  then show ?thesis
  proof (induction call rule: wf_induct_rule)
    case (less call)
    then have ih: "\<forall>call'. (call_measure call', call_measure call)
                  \<in> less_than <*lex*> less_than <*lex*> less_than \<longrightarrow> call_safe ext call'"
      by simp
    show ?case
    proof (cases call)
      case (Call_parse_expression_loop parse_ctx b flags res no nc)
      with ih show ?thesis by (rule loop_safe)
    next
      case (Call_parse_field parse_ctx name e flags)
      with ih show ?thesis by (rule field_safe)
    next
      case (Call_parse_modifier parse_ctx e flags)
      with ih show ?thesis by (rule modifier_safe)
    next
      case (Call_parse_filter_macros parse_ctx name flags)
      with ih show ?thesis by (rule macros_safe)
    qed
  qed
qed

lemma macro_returns_safe:
  assumes "list_all (\<lambda>f. eos_free (fsearch_query_lexer_new ext (query f))) filters"
  shows "macro_returns ext filters name"
  unfolding macro_returns_def
proof (intro allI impI, elim conjE)
  fix parse_ctx :: FsearchQueryParseContext and flags
  assume filters: "macro_filters parse_ctx = filters"
    and stack: "FSEARCH_QUERY_TOKEN_NONE \<notin> set (operator_stack parse_ctx)"
  let ?ctx = "parse_ctx\<lparr>lexer := []\<rparr>"
  show "\<exists>res ctx'. parse_filter_macros ext parse_ctx name flags = Some (Inr (res, ctx'))
           \<and> lexer ctx' = lexer parse_ctx \<and> operator_stack ctx' = operator_stack parse_ctx
           \<and> macro_filters ctx' = filters"
  proof (cases "find_filter (macro_filters parse_ctx) name 0")
    case None
    then show ?thesis by (simp add: parse_filter_macros_unfold filters)
  next
    case (Some p)
    obtain i filt where p: "p = (i, filt)" by (cases p)
    show ?thesis
    proof (cases "i \<in> set (macro_stack parse_ctx) \<or> fsearch_string_is_empty (query filt)")
      case True
      with Some p show ?thesis by (auto simp: parse_filter_macros_unfold filters)
    next
      case False
      define ctx1 where "ctx1 = parse_ctx\<lparr>macro_stack := macro_stack parse_ctx @ [i],
                                        lexer := fsearch_query_lexer_new ext (query filt),
                                        operator_stack := []\<rparr>"
      have member: "filt \<in> set filters"
        using find_filter_member [of "macro_filters parse_ctx" name 0 i filt] Some p filters by simp
      have s1: "safe_state ext ctx1 (0 + 0)"
        using assms member filters
        by (auto simp: safe_state_def ctx1_def bracket_state_def list_all_iff)
      have pre: "(0 :: 32 word) = 0 + of_nat 0 \<and> safe_state ext ctx1 (0 + 0)"
        using s1 by simp
      define flags3 where "flags3 =
        (if QUERY_FLAG_REGEX \<in> filter_flags filt
         then insert QUERY_FLAG_REGEX
           (if QUERY_FLAG_MATCH_CASE \<in> filter_flags filt
            then insert QUERY_FLAG_MATCH_CASE
              (if QUERY_FLAG_SEARCH_IN_PATH \<in> filter_flags filt
               then insert QUERY_FLAG_SEARCH_IN_PATH flags else flags)
            else (if QUERY_FLAG_SEARCH_IN_PATH \<in> filter_flags filt
               then insert QUERY_FLAG_SEARCH_IN_PATH flags else flags))
         else
           (if QUERY_FLAG_MATCH_CASE \<in> filter_flags filt
            then insert QUERY_FLAG_MATCH_CASE
              (if QUERY_FLAG_SEARCH_IN_PATH \<in> filter_flags filt
               then insert QUERY_FLAG_SEARCH_IN_PATH flags else flags)
            else (if QUERY_FLAG_SEARCH_IN_PATH \<in> filter_flags filt
               then insert QUERY_FLAG_SEARCH_IN_PATH flags else flags)))"
      let ?c = "Call_parse_expression_loop ctx1 False flags3 [] 0 0"
      from parser_call_safe [of ext ?c, unfolded call_safe.simps, rule_format, OF pre]
      obtain res ctx2 where r: "parser ext ?c = Some (Inr (res, ctx2))"
          and a2: "context_after ctx2 ctx1"
        by (auto simp: returns_safely_def)
      have eq: "parse_filter_macros ext parse_ctx name flags =
        Option.bind (parser ext ?c)
          (\<lambda>r. case r of
                  Inl e \<Rightarrow> Some (Inl e)
                | Inr (res, ctx2) \<Rightarrow>
                    Some (Inr (res,
                      ctx2\<lparr>operator_stack := operator_stack parse_ctx,
                           lexer := lexer parse_ctx,
                           macro_stack := butlast (macro_stack ctx2)\<rparr>)))"
        using Some p False
        by (simp add: parse_filter_macros_def macros_unfold Let_def ctx1_def flags3_def)
      from a2 have "macro_filters ctx2 = filters"
        by (simp add: context_after_def ctx1_def filters)
      with r show ?thesis by (simp add: eq)
    qed
  qed
qed

text \<open>
  Claim C3, as the code has it. The claim counts the brackets of the whole stream, but
  a token that a field reads as its argument is not read as a bracket by any loop.

  For a token stream without field tokens (each of its tokens is a word, an operator, a
  bracket or a token that the loop skips): when some prefix of the stream holds more
  closing than opening brackets, the parse at top level returns exactly the list of one
  match-nothing node, for every macro registry and all flags. (The counters of the
  brackets are 32 bit words; the result holds also when they wrap around.)

  For a token stream with field tokens the brackets are counted by \<open>unmatched_close\<close>,
  which leaves out the argument of each field: when a loop reads a closing bracket and
  no bracket is open, the parse at top level returns exactly the list of one
  match-nothing node. This is shown for streams of fewer than \<open>2 ^ 32\<close> tokens, so
  that the counters of the loop inside a modifier's bracket do not wrap around; for a
  lexer that gives the end-of-stream token past the end only, for the stream and for
  the texts of the macros; and where no field with an argument has the name of a macro,
  whose expansion would be parsed in place of the argument.
\<close>

theorem unbalanced_close_aborts:
  "(list_all plain_token (token_kinds lx)
    \<and> count_list (take n (token_kinds lx)) FSEARCH_QUERY_TOKEN_BRACKET_CLOSE
        > count_list (take n (token_kinds lx)) FSEARCH_QUERY_TOKEN_BRACKET_OPEN \<longrightarrow>
      (\<exists>ctx'. fsearch_query_parser_parse_expression ext (initial_context filters lx) False flags
                 = Some (Inr ([NodeMatchNothing], ctx'))))
   \<and> (unmatched_close lx No_Argument 0
      \<and> length lx < 2 ^ 32
      \<and> eos_free lx
      \<and> (\<forall>f \<in> set filters. eos_free (fsearch_query_lexer_new ext (query f)))
      \<and> (\<forall>token \<in> set lx.
            fst token = FSEARCH_QUERY_TOKEN_FIELD \<and> field_argument (snd token) \<noteq> No_Argument \<longrightarrow>
            find_filter filters (snd token) 0 = None) \<longrightarrow>
      (\<exists>ctx'. fsearch_query_parser_parse_expression ext (initial_context filters lx) False flags
                 = Some (Inr ([NodeMatchNothing], ctx'))))"
proof (intro conjI impI; elim conjE)
  assume "list_all plain_token (token_kinds lx)"
    and "count_list (take n (token_kinds lx)) FSEARCH_QUERY_TOKEN_BRACKET_CLOSE
        > count_list (take n (token_kinds lx)) FSEARCH_QUERY_TOKEN_BRACKET_OPEN"
  then show "\<exists>ctx'. fsearch_query_parser_parse_expression ext (initial_context filters lx) False flags
                 = Some (Inr ([NodeMatchNothing], ctx'))"
    unfolding fsearch_query_parser_parse_expression_def
    by (intro excess_close_aborts [where d = 0])
       (auto simp: initial_context_def bracket_state_def excess_close_prefix)
next
  assume un: "unmatched_close lx No_Argument 0" and len: "length lx < 2 ^ 32"
    and eos: "eos_free lx"
    and macros: "\<forall>f \<in> set filters. eos_free (fsearch_query_lexer_new ext (query f))"
    and fields: "\<forall>token \<in> set lx.
            fst token = FSEARCH_QUERY_TOKEN_FIELD \<and> field_argument (snd token) \<noteq> No_Argument \<longrightarrow>
            find_filter filters (snd token) 0 = None"
  from macros have "macro_returns ext filters name" for name
    by (intro macro_returns_safe) (simp add: list_all_iff)
  with eos fields have "list_all (loop_token ext filters) lx"
    by (auto simp: list_all_iff loop_token_def eos_free_def)
  from unmatched_close_aborts [OF this len un]
  show "\<exists>ctx'. fsearch_query_parser_parse_expression ext (initial_context filters lx) False flags
                 = Some (Inr ([NodeMatchNothing], ctx'))" .
qed

text \<open>
  The queries \<^verbatim>\<open>)abc\<close>, \<^verbatim>\<open>size: )\<close>, \<^verbatim>\<open>a ext:txt )\<close>, \<^verbatim>\<open>size:>5 )\<close> and \<^verbatim>\<open>case:(a) )\<close>, and
  the query \<^verbatim>\<open>m: )\<close> where \<^verbatim>\<open>m\<close> is a macro with the text \<^verbatim>\<open>Foo\<close>.
\<close>

theorem unbalanced_close_aborts_witness:
  "unmatched_close [(FSEARCH_QUERY_TOKEN_FIELD_EMPTY, ''size''),
                    (FSEARCH_QUERY_TOKEN_BRACKET_CLOSE, [])] No_Argument 0
   \<and> unmatched_close [(FSEARCH_QUERY_TOKEN_WORD, ''a''), (FSEARCH_QUERY_TOKEN_FIELD, ''ext''),
                      (FSEARCH_QUERY_TOKEN_WORD, ''txt''),
                      (FSEARCH_QUERY_TOKEN_BRACKET_CLOSE, [])] No_Argument 0
   \<and> unmatched_close [(FSEARCH_QUERY_TOKEN_FIELD, ''size''), (FSEARCH_QUERY_TOKEN_GREATER, []),
                      (FSEARCH_QUERY_TOKEN_WORD, ''5''),
                      (FSEARCH_QUERY_TOKEN_BRACKET_CLOSE, [])] No_Argument 0
   \<and> unmatched_close [(FSEARCH_QUERY_TOKEN_FIELD, ''case''),
                      (FSEARCH_QUERY_TOKEN_BRACKET_OPEN, []), (FSEARCH_QUERY_TOKEN_WORD, ''a''),
                      (FSEARCH_QUERY_TOKEN_BRACKET_CLOSE, []),
                      (FSEARCH_QUERY_TOKEN_BRACKET_CLOSE, [])] No_Argument 0
   \<and> fsearch_query_parser_parse_expression example_externals
        (initial_context [] [(FSEARCH_QUERY_TOKEN_BRACKET_CLOSE, []),
                             (FSEARCH_QUERY_TOKEN_WORD, ''abc'')]) False {}
      = Some (Inr ([NodeMatchNothing],
          \<lparr>lexer = [(FSEARCH_QUERY_TOKEN_WORD, ''abc'')], operator_stack = [], macro_stack = [],
           macro_filters = [], last_token = FSEARCH_QUERY_TOKEN_NONE\<rparr>))
   \<and> fsearch_query_parser_parse_expression example_externals
        (initial_context [] [(FSEARCH_QUERY_TOKEN_FIELD_EMPTY, ''size''),
                             (FSEARCH_QUERY_TOKEN_BRACKET_CLOSE, [])]) False {}
      = Some (Inr ([NodeMatchNothing],
          \<lparr>lexer = [], operator_stack = [], macro_stack = [],
           macro_filters = [], last_token = FSEARCH_QUERY_TOKEN_FIELD_EMPTY\<rparr>))
   \<and> fsearch_query_parser_parse_expression example_externals
        (initial_context [] [(FSEARCH_QUERY_TOKEN_WORD, ''a''), (FSEARCH_QUERY_TOKEN_FIELD, ''ext''),
                             (FSEARCH_QUERY_TOKEN_WORD, ''txt''),
                             (FSEARCH_QUERY_TOKEN_BRACKET_CLOSE, [])]) False {}
      = Some (Inr ([NodeMatchNothing],
          \<lparr>lexer = [], operator_stack = [FSEARCH_QUERY_TOKEN_AND], macro_stack = [],
           macro_filters = [], last_token = FSEARCH_QUERY_TOKEN_FIELD\<rparr>))
   \<and> fsearch_query_parser_parse_expression example_externals
        (initial_context [] [(FSEARCH_QUERY_TOKEN_FIELD, ''size''), (FSEARCH_QUERY_TOKEN_GREATER, []),
                             (FSEARCH_QUERY_TOKEN_WORD, ''5''),
                             (FSEARCH_QUERY_TOKEN_BRACKET_CLOSE, [])]) False {}
      = Some (Inr ([NodeMatchNothing],
          \<lparr>lexer = [], operator_stack = [], macro_stack = [],
           macro_filters = [], last_token = FSEARCH_QUERY_TOKEN_FIELD\<rparr>))
   \<and> fsearch_query_parser_parse_expression example_externals
        (initial_context [] [(FSEARCH_QUERY_TOKEN_FIELD, ''case''),
                             (FSEARCH_QUERY_TOKEN_BRACKET_OPEN, []), (FSEARCH_QUERY_TOKEN_WORD, ''a''),
                             (FSEARCH_QUERY_TOKEN_BRACKET_CLOSE, []),
                             (FSEARCH_QUERY_TOKEN_BRACKET_CLOSE, [])]) False {}
      = Some (Inr ([NodeMatchNothing],
          \<lparr>lexer = [], operator_stack = [], macro_stack = [],
           macro_filters = [], last_token = FSEARCH_QUERY_TOKEN_FIELD\<rparr>))
   \<and> fsearch_query_parser_parse_expression example_externals
        (initial_context [\<lparr>macro = ''m'', query = ''Foo'', filter_flags = {}\<rparr>]
           [(FSEARCH_QUERY_TOKEN_FIELD_EMPTY, ''m''), (FSEARCH_QUERY_TOKEN_BRACKET_CLOSE, [])]) False {}
      = Some (Inr ([NodeMatchNothing],
          \<lparr>lexer = [], operator_stack = [], macro_stack = [],
           macro_filters = [\<lparr>macro = ''m'', query = ''Foo'', filter_flags = {}\<rparr>],
           last_token = FSEARCH_QUERY_TOKEN_FIELD_EMPTY\<rparr>))"
proof -
  note hyps = token_kinds_def plain_token_def eos_free_def field_argument_def
    supported_modifiers_def numeric_function_names_def word_function_names_def
    comparison_token_def example_externals_def example_lexer_new_def
  have plain: "\<exists>ctx'. fsearch_query_parser_parse_expression example_externals
        (initial_context [] [(FSEARCH_QUERY_TOKEN_BRACKET_CLOSE, []),
                             (FSEARCH_QUERY_TOKEN_WORD, ''abc'')]) False {}
      = Some (Inr ([NodeMatchNothing], ctx'))"
    by (rule unbalanced_close_aborts [where n = 1, THEN conjunct1, THEN mp]) (simp add: hyps)
  have empty_field: "\<exists>ctx'. fsearch_query_parser_parse_expression example_externals
        (initial_context [] [(FSEARCH_QUERY_TOKEN_FIELD_EMPTY, ''size''),
                             (FSEARCH_QUERY_TOKEN_BRACKET_CLOSE, [])]) False {}
      = Some (Inr ([NodeMatchNothing], ctx'))"
    by (rule unbalanced_close_aborts [THEN conjunct2, THEN mp]) (simp add: hyps)
  have word_argument: "\<exists>ctx'. fsearch_query_parser_parse_expression example_externals
        (initial_context [] [(FSEARCH_QUERY_TOKEN_WORD, ''a''), (FSEARCH_QUERY_TOKEN_FIELD, ''ext''),
                             (FSEARCH_QUERY_TOKEN_WORD, ''txt''),
                             (FSEARCH_QUERY_TOKEN_BRACKET_CLOSE, [])]) False {}
      = Some (Inr ([NodeMatchNothing], ctx'))"
    by (rule unbalanced_close_aborts [THEN conjunct2, THEN mp]) (simp add: hyps)
  have numeric_argument: "\<exists>ctx'. fsearch_query_parser_parse_expression example_externals
        (initial_context [] [(FSEARCH_QUERY_TOKEN_FIELD, ''size''), (FSEARCH_QUERY_TOKEN_GREATER, []),
                             (FSEARCH_QUERY_TOKEN_WORD, ''5''),
                             (FSEARCH_QUERY_TOKEN_BRACKET_CLOSE, [])]) False {}
      = Some (Inr ([NodeMatchNothing], ctx'))"
    by (rule unbalanced_close_aborts [THEN conjunct2, THEN mp]) (simp add: hyps)
  have modifier_bracket: "\<exists>ctx'. fsearch_query_parser_parse_expression example_externals
        (initial_context [] [(FSEARCH_QUERY_TOKEN_FIELD, ''case''),
                             (FSEARCH_QUERY_TOKEN_BRACKET_OPEN, []), (FSEARCH_QUERY_TOKEN_WORD, ''a''),
                             (FSEARCH_QUERY_TOKEN_BRACKET_CLOSE, []),
                             (FSEARCH_QUERY_TOKEN_BRACKET_CLOSE, [])]) False {}
      = Some (Inr ([NodeMatchNothing], ctx'))"
    by (rule unbalanced_close_aborts [THEN conjunct2, THEN mp]) (simp add: hyps)
  have macro: "\<exists>ctx'. fsearch_query_parser_parse_expression example_externals
        (initial_context [\<lparr>macro = ''m'', query = ''Foo'', filter_flags = {}\<rparr>]
           [(FSEARCH_QUERY_TOKEN_FIELD_EMPTY, ''m''), (FSEARCH_QUERY_TOKEN_BRACKET_CLOSE, [])]) False {}
      = Some (Inr ([NodeMatchNothing], ctx'))"
    by (rule unbalanced_close_aborts [THEN conjunct2, THEN mp]) (simp add: hyps)
  from plain empty_field word_argument numeric_argument modifier_bracket macro show ?thesis
    by (simp add: parser_eval parse_function_extension_def parse_function_size_def
          parse_numeric_function_def parse_numeric_function_value_def example_externals_def
          example_lexer_new_def parse_integer_5 field_argument_def numeric_function_names_def
          word_function_names_def comparison_token_def)
qed

text \<open>
  The claim C3 as it is written fails: in \<^verbatim>\<open>a ext:)\<close> the whole stream holds one closing
  bracket and no opening one, but the bracket is read as the argument of \<^verbatim>\<open>ext\<close>, which
  gives a match-nothing node for this field only, and the word \<^verbatim>\<open>a\<close> is kept. No loop
  reads this bracket, and \<open>unmatched_close\<close> does not count it.
\<close>

theorem field_swallows_close_bracket:
  "count_list (take 3 (token_kinds [(FSEARCH_QUERY_TOKEN_WORD, ''a''),
       (FSEARCH_QUERY_TOKEN_FIELD, ''ext''), (FSEARCH_QUERY_TOKEN_BRACKET_CLOSE, [])]))
     FSEARCH_QUERY_TOKEN_BRACKET_CLOSE
   > count_list (take 3 (token_kinds [(FSEARCH_QUERY_TOKEN_WORD, ''a''),
       (FSEARCH_QUERY_TOKEN_FIELD, ''ext''), (FSEARCH_QUERY_TOKEN_BRACKET_CLOSE, [])]))
     FSEARCH_QUERY_TOKEN_BRACKET_OPEN
   \<and> fsearch_query_parser_parse_expression example_externals
     (initial_context []
        [(FSEARCH_QUERY_TOKEN_WORD, ''a''), (FSEARCH_QUERY_TOKEN_FIELD, ''ext''),
         (FSEARCH_QUERY_TOKEN_BRACKET_CLOSE, [])]) False {}
   = Some (Inr ([NodeWord ''a'' {}, NodeMatchNothing,
                 NodeOperator FSEARCH_QUERY_NODE_OPERATOR_AND],
                \<lparr>lexer = [], operator_stack = [], macro_stack = [],
                 macro_filters = [], last_token = FSEARCH_QUERY_TOKEN_FIELD\<rparr>))
   \<and> \<not> unmatched_close [(FSEARCH_QUERY_TOKEN_WORD, ''a''), (FSEARCH_QUERY_TOKEN_FIELD, ''ext''),
                        (FSEARCH_QUERY_TOKEN_BRACKET_CLOSE, [])] No_Argument 0"
  by (simp add: parser_eval token_kinds_def parse_function_extension_def field_argument_def
        numeric_function_names_def word_function_names_def)

end
